theory Spec2Isabelle
  imports Complex_Main "HOL-Library.Log_Nat"
begin

section \<open>JavaScript numbers\<close>

text \<open>
  The library computes on JavaScript Numbers. A Number is a real number or one of the
  three special values of the language: positive infinity, negative infinity and
  not-a-number. This section gives the exact result of each operator, by the cases of
  the ECMAScript definition on the special values, and the functions of the library
  over these exact operators: they are what the code computes wherever every
  intermediate result is a binary64 number. The rounding of the results to binary64
  and the overflow to an infinity are added in the section on binary64 arithmetic,
  where the library is written again over the rounding operators.
\<close>

datatype number = Fin real | PInf | NInf | NaN

fun isFinite :: "number \<Rightarrow> bool" where
  "isFinite (Fin _) = True"
| "isFinite _ = False"

fun js_neg :: "number \<Rightarrow> number" where
  "js_neg (Fin a) = Fin (- a)"
| "js_neg PInf = NInf"
| "js_neg NInf = PInf"
| "js_neg NaN = NaN"

fun js_add :: "number \<Rightarrow> number \<Rightarrow> number" where
  "js_add (Fin a) (Fin b) = Fin (a + b)"
| "js_add (Fin a) PInf = PInf"
| "js_add (Fin a) NInf = NInf"
| "js_add PInf (Fin b) = PInf"
| "js_add PInf PInf = PInf"
| "js_add PInf NInf = NaN"
| "js_add NInf (Fin b) = NInf"
| "js_add NInf PInf = NaN"
| "js_add NInf NInf = NInf"
| "js_add NaN _ = NaN"
| "js_add _ NaN = NaN"

definition js_sub :: "number \<Rightarrow> number \<Rightarrow> number" where
  "js_sub a b = js_add a (js_neg b)"

text \<open>An infinity of the sign of a non-zero real.\<close>

definition inf_of_sign :: "real \<Rightarrow> number" where
  "inf_of_sign a = (if 0 < a then PInf else NInf)"

fun js_mul :: "number \<Rightarrow> number \<Rightarrow> number" where
  "js_mul (Fin a) (Fin b) = Fin (a * b)"
| "js_mul (Fin a) PInf = (if a = 0 then NaN else inf_of_sign a)"
| "js_mul (Fin a) NInf = (if a = 0 then NaN else inf_of_sign (- a))"
| "js_mul PInf (Fin b) = (if b = 0 then NaN else inf_of_sign b)"
| "js_mul NInf (Fin b) = (if b = 0 then NaN else inf_of_sign (- b))"
| "js_mul PInf PInf = PInf"
| "js_mul PInf NInf = NInf"
| "js_mul NInf PInf = NInf"
| "js_mul NInf NInf = PInf"
| "js_mul NaN _ = NaN"
| "js_mul _ NaN = NaN"

fun js_div :: "number \<Rightarrow> number \<Rightarrow> number" where
  "js_div (Fin a) (Fin b) =
     (if b = 0 then (if a = 0 then NaN else inf_of_sign a) else Fin (a / b))"
| "js_div (Fin a) PInf = Fin 0"
| "js_div (Fin a) NInf = Fin 0"
| "js_div PInf (Fin b) = (if 0 \<le> b then PInf else NInf)"
| "js_div NInf (Fin b) = (if 0 \<le> b then NInf else PInf)"
| "js_div PInf PInf = NaN"
| "js_div PInf NInf = NaN"
| "js_div NInf PInf = NaN"
| "js_div NInf NInf = NaN"
| "js_div NaN _ = NaN"
| "js_div _ NaN = NaN"

text \<open>The relational operators: every comparison with not-a-number is false.\<close>

fun js_lt :: "number \<Rightarrow> number \<Rightarrow> bool" where
  "js_lt (Fin a) (Fin b) = (a < b)"
| "js_lt (Fin a) PInf = True"
| "js_lt NInf (Fin b) = True"
| "js_lt NInf PInf = True"
| "js_lt _ _ = False"

definition js_gt :: "number \<Rightarrow> number \<Rightarrow> bool" where
  "js_gt a b = js_lt b a"

fun js_le :: "number \<Rightarrow> number \<Rightarrow> bool" where
  "js_le NaN _ = False"
| "js_le _ NaN = False"
| "js_le a b = (a = b \<or> js_lt a b)"

text \<open>The functions of the \<open>Math\<close> object that the library calls.\<close>

fun Math_abs :: "number \<Rightarrow> number" where
  "Math_abs (Fin a) = Fin \<bar>a\<bar>"
| "Math_abs PInf = PInf"
| "Math_abs NInf = PInf"
| "Math_abs NaN = NaN"

fun Math_floor :: "number \<Rightarrow> number" where
  "Math_floor (Fin a) = Fin (of_int \<lfloor>a\<rfloor>)"
| "Math_floor x = x"

fun Math_ceil :: "number \<Rightarrow> number" where
  "Math_ceil (Fin a) = Fin (of_int \<lceil>a\<rceil>)"
| "Math_ceil x = x"

text \<open>\<open>Math.round\<close> rounds to the nearest integer, a tie towards positive infinity.\<close>

fun Math_round :: "number \<Rightarrow> number" where
  "Math_round (Fin a) = Fin (of_int \<lfloor>a + 1 / 2\<rfloor>)"
| "Math_round x = x"

fun Math_min :: "number \<Rightarrow> number \<Rightarrow> number" where
  "Math_min NaN _ = NaN"
| "Math_min _ NaN = NaN"
| "Math_min a b = (if js_lt b a then b else a)"

fun Math_max :: "number \<Rightarrow> number \<Rightarrow> number" where
  "Math_max NaN _ = NaN"
| "Math_max _ NaN = NaN"
| "Math_max a b = (if js_lt a b then b else a)"

text \<open>
  \<open>Math.pow\<close>, by the cases of the language definition. An exponent that is an
  integer is a repeated product (or its inverse); any other exponent is defined on a
  positive base only, a negative base giving not-a-number.
\<close>

definition is_int :: "real \<Rightarrow> bool" where
  "is_int y = (of_int \<lfloor>y\<rfloor> = y)"

definition is_odd_int :: "real \<Rightarrow> bool" where
  "is_odd_int y = (is_int y \<and> odd \<lfloor>y\<rfloor>)"

fun Math_pow :: "number \<Rightarrow> number \<Rightarrow> number" where
  "Math_pow _ NaN = NaN"
| "Math_pow NaN (Fin y) = (if y = 0 then Fin 1 else NaN)"
| "Math_pow NaN _ = NaN"
| "Math_pow PInf (Fin y) = (if y = 0 then Fin 1 else if 0 < y then PInf else Fin 0)"
| "Math_pow PInf PInf = PInf"
| "Math_pow PInf NInf = Fin 0"
| "Math_pow NInf (Fin y) =
     (if y = 0 then Fin 1
      else if 0 < y then (if is_odd_int y then NInf else PInf)
      else Fin 0)"
| "Math_pow NInf PInf = PInf"
| "Math_pow NInf NInf = Fin 0"
| "Math_pow (Fin x) PInf =
     (if 1 < \<bar>x\<bar> then PInf else if \<bar>x\<bar> = 1 then NaN else Fin 0)"
| "Math_pow (Fin x) NInf =
     (if 1 < \<bar>x\<bar> then Fin 0 else if \<bar>x\<bar> = 1 then NaN else PInf)"
| "Math_pow (Fin x) (Fin y) =
     (if y = 0 then Fin 1
      else if x = 0 then (if 0 < y then Fin 0 else PInf)
      else if is_int y then Fin (power_int x \<lfloor>y\<rfloor>)
      else if x < 0 then NaN
      else Fin (x powr y))"

section \<open>Values found in a fee list\<close>

text \<open>
  A fee list is an array of arbitrary values: the tests pass numbers, strings,
  \<open>undefined\<close> and \<open>null\<close>.
\<close>

datatype jsval = JNumber number | JString string | JUndefined | JNull | JBoolean bool

subsection \<open>\<open>parseFloat\<close>\<close>

text \<open>
  \<open>parseFloat\<close> converts its argument to a string, drops leading white space and
  reads the longest prefix that is a decimal literal: an optional sign, then
  \<open>Infinity\<close> or digits with an optional fraction and an optional exponent. The
  result is not-a-number when there is no such prefix. Strings are lists of 8-bit
  characters, so white space is the ASCII white space and the no-break space.
\<close>

definition is_digit :: "char \<Rightarrow> bool" where
  "is_digit c = (c \<in> set ''0123456789'')"

definition is_space :: "char \<Rightarrow> bool" where
  "is_space c =
     (c \<in> set [CHR 0x09, CHR 0x0A, CHR 0x0B, CHR 0x0C, CHR 0x0D, CHR '' '', CHR 0xA0])"

definition digit_val :: "char \<Rightarrow> nat" where
  "digit_val c = of_char c - 48"

definition digits_val :: "string \<Rightarrow> nat" where
  "digits_val ds = foldl (\<lambda>acc c. 10 * acc + digit_val c) 0 ds"

text \<open>A leading sign: the flag says whether it was a minus.\<close>

fun strip_sign :: "string \<Rightarrow> bool \<times> string" where
  "strip_sign [] = (False, [])"
| "strip_sign (c # cs) =
     (if c = CHR ''-'' then (True, cs)
      else if c = CHR ''+'' then (False, cs)
      else (False, c # cs))"

text \<open>
  The exponent part at the head of a string, or 0 when there is none: an exponent
  indicator that no digit follows does not belong to the literal.
\<close>

fun exponent_part :: "string \<Rightarrow> int" where
  "exponent_part [] = 0"
| "exponent_part (e # rest) =
     (if e = CHR ''e'' \<or> e = CHR ''E'' then
        (let (neg, ds) = strip_sign rest; digs = takeWhile is_digit ds
         in if digs = [] then 0
            else if neg then - int (digits_val digs) else int (digits_val digs))
      else 0)"

text \<open>The fraction after the integer digits: its digits and the rest of the string.\<close>

fun fraction_part :: "string \<Rightarrow> string \<times> string" where
  "fraction_part [] = ([], [])"
| "fraction_part (c # cs) =
     (if c = CHR ''.'' then (takeWhile is_digit cs, dropWhile is_digit cs)
      else ([], c # cs))"

definition str_unsigned_decimal :: "string \<Rightarrow> number" where
  "str_unsigned_decimal s =
     (if take 8 s = ''Infinity'' then PInf
      else
        (let ip = takeWhile is_digit s;
             (fp, rest) = fraction_part (dropWhile is_digit s)
         in if ip = [] \<and> fp = [] then NaN
            else Fin ((of_nat (digits_val ip) + of_nat (digits_val fp) / 10 ^ length fp)
                      * power_int 10 (exponent_part rest))))"

definition parseFloat_string :: "string \<Rightarrow> number" where
  "parseFloat_string s =
     (let (neg, u) = strip_sign (dropWhile is_space s);
          v = str_unsigned_decimal u
      in if neg then js_neg v else v)"

text \<open>
  A Number is converted to a string that reads back as the same Number, so
  \<open>parseFloat\<close> returns it unchanged; every other value is read from its string.
\<close>

fun parseFloat :: "jsval \<Rightarrow> number" where
  "parseFloat (JNumber n) = n"
| "parseFloat (JString s) = parseFloat_string s"
| "parseFloat JUndefined = parseFloat_string ''undefined''"
| "parseFloat JNull = parseFloat_string ''null''"
| "parseFloat (JBoolean b) = parseFloat_string (if b then ''true'' else ''false'')"

section \<open>The library\<close>

subsection \<open>\<open>isNumber\<close> and \<open>sumArray\<close>\<close>

definition isNumber :: "jsval \<Rightarrow> bool" where
  "isNumber v = isFinite (parseFloat v)"

definition sumArray :: "jsval list \<Rightarrow> number" where
  "sumArray arr = foldl (\<lambda>acc e. js_add acc (parseFloat e)) (Fin 0) (filter isNumber arr)"

subsection \<open>\<open>roundDecimals\<close>\<close>

text \<open>
  The test \<open>decimals ? ... : 1\<close> is on the truth value of a Number: zero and
  not-a-number are false.
\<close>

fun truthy :: "number \<Rightarrow> bool" where
  "truthy (Fin a) = (a \<noteq> 0)"
| "truthy NaN = False"
| "truthy _ = True"

definition roundDecimals :: "number \<Rightarrow> number \<Rightarrow> number" where
  "roundDecimals n decimals =
     (let rounding = (if truthy decimals then Math_pow (Fin 10) decimals else Fin 1)
      in js_div (Math_round (js_mul n rounding)) rounding)"

subsection \<open>\<open>_amortization\<close> and \<open>amortizationWithFees\<close>\<close>

text \<open>\<open>roundDecimals(am)\<close> is the call with the default of two decimals.\<close>

definition amortization :: "number \<Rightarrow> number \<Rightarrow> number \<Rightarrow> number" where
  "amortization loanAmount rate period =
     (let ratePerPeriod = js_div rate (Fin 12);
          buildNumerator = (\<lambda>numInterestAccruals.
            js_mul ratePerPeriod (Math_pow (js_add (Fin 1) ratePerPeriod) numInterestAccruals));
          numerator = buildNumerator (js_mul period (Fin 12));
          denominator = js_sub (Math_pow (js_add (Fin 1) ratePerPeriod) (js_mul period (Fin 12))) (Fin 1);
          am = js_mul loanAmount (js_div numerator denominator)
      in roundDecimals am (Fin 2))"

text \<open>A fee list that the caller leaves out is the empty list.\<close>

definition fees_or_default :: "jsval list option \<Rightarrow> jsval list" where
  "fees_or_default fs = (case fs of None \<Rightarrow> [] | Some xs \<Rightarrow> xs)"

definition amortizationWithFees ::
  "number \<Rightarrow> number \<Rightarrow> number \<Rightarrow> jsval list option \<Rightarrow> jsval list option \<Rightarrow> number" where
  "amortizationWithFees loanAmount rate period principalFees periodFees =
     js_add
       (amortization (js_add loanAmount (sumArray (fees_or_default principalFees))) rate period)
       (sumArray (fees_or_default periodFees))"

subsection \<open>\<open>effectiveInterest\<close>\<close>

text \<open>
  The variables of the loop. \<open>guessLimit\<close> is \<open>Math.pow(10, -1 * precision)\<close> with
  \<open>precision = 5\<close>.
\<close>

record solver_state =
  high :: number
  low :: number
  guess :: number
  previousGuess :: number

definition guessLimit :: number where
  "guessLimit = Math_pow (Fin 10) (js_mul (Fin (- 1)) (Fin 5))"

definition solver_init :: solver_state where
  "solver_init = \<lparr>high = Fin 2, low = Fin 1, guess = Fin 0, previousGuess = Fin 0\<rparr>"

text \<open>The value \<open>prov\<close> that one pass of the loop computes for a guess.\<close>

definition prov_of :: "number \<Rightarrow> number \<Rightarrow> number \<Rightarrow> number" where
  "prov_of monthlyPayment period g =
     (let paymentsPerYear = Fin 12
      in js_div
           (js_div
              (js_mul (js_mul monthlyPayment g)
                 (js_sub (Fin 1) (Math_pow g (js_mul period paymentsPerYear))))
              (js_sub (Fin 1) g))
           (Math_pow g (js_add (js_mul period paymentsPerYear) (Fin 1))))"

text \<open>One pass through the body of the \<open>do ... while\<close> loop.\<close>

definition solver_body :: "number \<Rightarrow> number \<Rightarrow> number \<Rightarrow> solver_state \<Rightarrow> solver_state" where
  "solver_body loanAmount monthlyPayment period s =
     (let previousGuess' = guess s;
          guess' = js_add (js_div (js_sub (high s) (low s)) (Fin 2)) (low s);
          prov = prov_of monthlyPayment period guess'
      in if js_lt prov loanAmount
         then \<lparr>high = guess', low = low s, guess = guess', previousGuess = previousGuess'\<rparr>
         else \<lparr>high = high s, low = guess', guess = guess', previousGuess = previousGuess'\<rparr>)"

text \<open>The loop condition, tested after each pass.\<close>

definition solver_continues :: "solver_state \<Rightarrow> bool" where
  "solver_continues s = js_gt (Math_abs (js_sub (guess s) (previousGuess s))) guessLimit"

text \<open>
  The loop has no bound on its passes, so it is a partial function: \<open>None\<close> stands
  for a loop that never ends.
\<close>

partial_function (option) solver_loop ::
  "number \<Rightarrow> number \<Rightarrow> number \<Rightarrow> solver_state \<Rightarrow> solver_state option" where
  "solver_loop loanAmount monthlyPayment period s =
     (let s' = solver_body loanAmount monthlyPayment period s
      in if solver_continues s' then solver_loop loanAmount monthlyPayment period s'
         else Some s')"

definition effectiveInterest :: "number \<Rightarrow> number \<Rightarrow> number \<Rightarrow> number option" where
  "effectiveInterest loanAmount monthlyPayment period =
     (case solver_loop loanAmount monthlyPayment period solver_init of
        None \<Rightarrow> None
      | Some s \<Rightarrow>
          (let paymentsPerYear = Fin 12;
               foundRate = Math_pow (guess s) paymentsPerYear
           in Some (roundDecimals (js_sub foundRate (Fin 1)) (Fin 4))))"

subsection \<open>\<open>dateAtIndex\<close>\<close>

text \<open>
  Of a date the library reads the year and the zero-based month, both integers.
  \<open>Math.floor(offset / 12)\<close> on integers is the floor division of HOL.
\<close>

record date =
  getFullYear :: int
  getMonth :: int

definition dateAtIndex :: "int \<Rightarrow> date \<Rightarrow> int \<times> int" where
  "dateAtIndex i d =
     (let offset = i + getMonth d;
          yearsAhead = offset div 12;
          year = getFullYear d + yearsAhead;
          month = offset - yearsAhead * 12
      in (year, month))"

subsection \<open>\<open>paymentPlanFromToday\<close>\<close>

record entry =
  downPayment :: number
  feesPaid :: number
  remainder :: number
  interest :: number
  year :: int
  month :: int

datatype error = RangeError

text \<open>
  \<open>Array.from({ length: months }, f)\<close> reads the length as the language does: the
  number is truncated to an integer, a negative number or not-a-number is 0, and the
  result is at most \<open>2^53 - 1\<close>. An array of more than \<open>2^32 - 1\<close> elements cannot
  be created: the call throws a \<open>RangeError\<close>.
\<close>

fun ToLength :: "number \<Rightarrow> nat" where
  "ToLength (Fin x) = (if x \<le> 0 then 0 else min (nat \<lfloor>x\<rfloor>) (2 ^ 53 - 1))"
| "ToLength PInf = 2 ^ 53 - 1"
| "ToLength NInf = 0"
| "ToLength NaN = 0"

text \<open>
  The callback runs once for each index \<open>i\<close>, in order, and updates the variable
  \<open>remainder\<close> of the enclosing call: the running remainder is an argument here.
  \<open>plan_entries\<close> produces the entries of the \<open>k\<close> indices from \<open>i\<close> on.
\<close>

fun plan_entries ::
  "number \<Rightarrow> number \<Rightarrow> jsval list \<Rightarrow> jsval list \<Rightarrow> date \<Rightarrow> nat \<Rightarrow> nat \<Rightarrow> number \<Rightarrow> entry list" where
  "plan_entries monthlyRate baseDownPayment principalFees periodFees d i 0 rem = []"
| "plan_entries monthlyRate baseDownPayment principalFees periodFees d i (Suc k) rem =
     (let feesPaid' = js_add (sumArray periodFees) (if i = 0 then sumArray principalFees else Fin 0);
          interest' = Math_floor (js_mul rem monthlyRate);
          downPayment' = Math_ceil (Math_min (js_sub baseDownPayment interest') rem);
          rem' = js_sub rem downPayment';
          (y, m) = dateAtIndex (int i + 1) d
      in \<lparr>downPayment = downPayment', feesPaid = feesPaid', remainder = rem',
           interest = interest', year = y, month = m\<rparr>
         # plan_entries monthlyRate baseDownPayment principalFees periodFees d (Suc i) k rem')"

text \<open>The date of the call, \<open>new Date()\<close>, is the argument \<open>today\<close>.\<close>

definition paymentPlanFromToday ::
  "number \<Rightarrow> number \<Rightarrow> number \<Rightarrow> jsval list option \<Rightarrow> jsval list option \<Rightarrow> date
     \<Rightarrow> error + entry list" where
  "paymentPlanFromToday loanAmount rate period principalFees periodFees today =
     (let months = js_mul period (Fin 12);
          monthlyRate = js_div rate (Fin 12);
          baseDownPayment = amortization loanAmount rate period
      in if 2 ^ 32 - 1 < ToLength months then Inl RangeError
         else Inr (plan_entries monthlyRate baseDownPayment (fees_or_default principalFees)
                     (fees_or_default periodFees) today 0 (ToLength months) loanAmount))"

section \<open>Binary64 arithmetic\<close>

text \<open>
  A JavaScript Number is a binary64 floating-point number, an infinity or
  not-a-number, and every operator of the language rounds its exact result to the
  nearest binary64 number. The operators of the first section give the exact results;
  this section adds the rounding, and the functions of the library are then written
  once more over the rounding operators, under their names with the suffix \<open>64\<close>.
  There a term \<open>Fin x\<close> stands for the binary64 number nearest to \<open>x\<close>, as a numeric
  literal of the language does: \<open>Fin 0.1\<close> is the Number that the literal \<open>0.1\<close>
  denotes. The sign of zero is not represented: every zero that the library divides by
  or raises to a power is the result of a subtraction or of an underflow of a positive
  number, a positive zero.
\<close>

subsection \<open>Rounding to binary64\<close>

text \<open>Rounding to the nearest integer, a tie to the even one.\<close>

definition rhe :: "real \<Rightarrow> int" where
  "rhe y =
     (let f = \<lfloor>y\<rfloor>; d = y - of_int f
      in if d < 1 / 2 then f
         else if 1 / 2 < d then f + 1
         else if even f then f else f + 1)"

text \<open>
  The binary exponent of a real: \<open>2 ^ e \<le> \<bar>x\<bar> < 2 ^ (e + 1)\<close>, and \<open>- 1022\<close>, the
  exponent of the subnormal numbers, for everything smaller.
\<close>

definition expo :: "real \<Rightarrow> int" where
  "expo x =
     (let n = \<lfloor>\<bar>x\<bar> * 2 ^ 1074\<rfloor>
      in if n < 2 ^ 52 then - 1022 else bitlen n - 1075)"

text \<open>
  A binary64 number has 53 significant bits: the numbers with the exponent of \<open>x\<close> are
  the multiples of \<open>2 ^ (expo x - 52)\<close>, and \<open>rnd x\<close> is the nearest of them.
\<close>

definition rnd :: "real \<Rightarrow> real" where
  "rnd x = of_int (rhe (x / 2 powi (expo x - 52))) * 2 powi (expo x - 52)"

text \<open>A result whose rounded magnitude reaches \<open>2 ^ 1024\<close> overflows to an infinity.\<close>

definition fl :: "real \<Rightarrow> number" where
  "fl x = (if 2 ^ 1024 \<le> \<bar>rnd x\<bar> then (if 0 < x then PInf else NInf) else Fin (rnd x))"

text \<open>The Number that a term stands for.\<close>

fun val :: "number \<Rightarrow> number" where
  "val (Fin x) = fl x"
| "val n = n"

subsection \<open>The operators on binary64 numbers\<close>

text \<open>
  An operator takes the Numbers that its operands stand for and rounds the exact
  result. The results of \<open>Math.abs\<close>, \<open>Math.floor\<close>, \<open>Math.ceil\<close>, \<open>Math.round\<close> and
  \<open>Math.min\<close> on binary64 numbers need no rounding. \<open>Math.pow\<close> is taken to return
  the binary64 number nearest to the exact power.
\<close>

definition js_add64 :: "number \<Rightarrow> number \<Rightarrow> number" where
  "js_add64 a b = val (js_add (val a) (val b))"

definition js_sub64 :: "number \<Rightarrow> number \<Rightarrow> number" where
  "js_sub64 a b = val (js_sub (val a) (val b))"

definition js_mul64 :: "number \<Rightarrow> number \<Rightarrow> number" where
  "js_mul64 a b = val (js_mul (val a) (val b))"

definition js_div64 :: "number \<Rightarrow> number \<Rightarrow> number" where
  "js_div64 a b = val (js_div (val a) (val b))"

definition js_lt64 :: "number \<Rightarrow> number \<Rightarrow> bool" where
  "js_lt64 a b = js_lt (val a) (val b)"

definition js_gt64 :: "number \<Rightarrow> number \<Rightarrow> bool" where
  "js_gt64 a b = js_lt64 b a"

definition Math_abs64 :: "number \<Rightarrow> number" where
  "Math_abs64 a = Math_abs (val a)"

definition Math_floor64 :: "number \<Rightarrow> number" where
  "Math_floor64 a = Math_floor (val a)"

definition Math_ceil64 :: "number \<Rightarrow> number" where
  "Math_ceil64 a = Math_ceil (val a)"

definition Math_round64 :: "number \<Rightarrow> number" where
  "Math_round64 a = Math_round (val a)"

definition Math_min64 :: "number \<Rightarrow> number \<Rightarrow> number" where
  "Math_min64 a b = Math_min (val a) (val b)"

definition Math_pow64 :: "number \<Rightarrow> number \<Rightarrow> number" where
  "Math_pow64 x y = val (Math_pow (val x) (val y))"

subsection \<open>The library on binary64 numbers\<close>

text \<open>
  \<open>parseFloat\<close> returns the Number nearest to the decimal literal that it reads, an
  infinity when the literal is out of range.
\<close>

definition parseFloat64 :: "jsval \<Rightarrow> number" where
  "parseFloat64 v = val (parseFloat v)"

definition isNumber64 :: "jsval \<Rightarrow> bool" where
  "isNumber64 v = isFinite (parseFloat64 v)"

definition sumArray64 :: "jsval list \<Rightarrow> number" where
  "sumArray64 arr =
     foldl (\<lambda>acc e. js_add64 acc (parseFloat64 e)) (Fin 0) (filter isNumber64 arr)"

definition roundDecimals64 :: "number \<Rightarrow> number \<Rightarrow> number" where
  "roundDecimals64 n decimals =
     (let rounding = (if truthy (val decimals) then Math_pow64 (Fin 10) decimals else Fin 1)
      in js_div64 (Math_round64 (js_mul64 n rounding)) rounding)"

definition amortization64 :: "number \<Rightarrow> number \<Rightarrow> number \<Rightarrow> number" where
  "amortization64 loanAmount rate period =
     (let ratePerPeriod = js_div64 rate (Fin 12);
          buildNumerator = (\<lambda>numInterestAccruals.
            js_mul64 ratePerPeriod
              (Math_pow64 (js_add64 (Fin 1) ratePerPeriod) numInterestAccruals));
          numerator = buildNumerator (js_mul64 period (Fin 12));
          denominator =
            js_sub64 (Math_pow64 (js_add64 (Fin 1) ratePerPeriod) (js_mul64 period (Fin 12)))
              (Fin 1);
          am = js_mul64 loanAmount (js_div64 numerator denominator)
      in roundDecimals64 am (Fin 2))"

definition guessLimit64 :: number where
  "guessLimit64 = Math_pow64 (Fin 10) (js_mul64 (Fin (- 1)) (Fin 5))"

definition prov_of64 :: "number \<Rightarrow> number \<Rightarrow> number \<Rightarrow> number" where
  "prov_of64 monthlyPayment period g =
     (let paymentsPerYear = Fin 12
      in js_div64
           (js_div64
              (js_mul64 (js_mul64 monthlyPayment g)
                 (js_sub64 (Fin 1) (Math_pow64 g (js_mul64 period paymentsPerYear))))
              (js_sub64 (Fin 1) g))
           (Math_pow64 g (js_add64 (js_mul64 period paymentsPerYear) (Fin 1))))"

definition solver_body64 ::
  "number \<Rightarrow> number \<Rightarrow> number \<Rightarrow> solver_state \<Rightarrow> solver_state" where
  "solver_body64 loanAmount monthlyPayment period s =
     (let previousGuess' = guess s;
          guess' = js_add64 (js_div64 (js_sub64 (high s) (low s)) (Fin 2)) (low s);
          prov = prov_of64 monthlyPayment period guess'
      in if js_lt64 prov loanAmount
         then \<lparr>high = guess', low = low s, guess = guess', previousGuess = previousGuess'\<rparr>
         else \<lparr>high = high s, low = guess', guess = guess', previousGuess = previousGuess'\<rparr>)"

definition solver_continues64 :: "solver_state \<Rightarrow> bool" where
  "solver_continues64 s =
     js_gt64 (Math_abs64 (js_sub64 (guess s) (previousGuess s))) guessLimit64"

partial_function (option) solver_loop64 ::
  "number \<Rightarrow> number \<Rightarrow> number \<Rightarrow> solver_state \<Rightarrow> solver_state option" where
  "solver_loop64 loanAmount monthlyPayment period s =
     (let s' = solver_body64 loanAmount monthlyPayment period s
      in if solver_continues64 s' then solver_loop64 loanAmount monthlyPayment period s'
         else Some s')"

definition effectiveInterest64 :: "number \<Rightarrow> number \<Rightarrow> number \<Rightarrow> number option" where
  "effectiveInterest64 loanAmount monthlyPayment period =
     (case solver_loop64 loanAmount monthlyPayment period solver_init of
        None \<Rightarrow> None
      | Some s \<Rightarrow>
          (let paymentsPerYear = Fin 12;
               foundRate = Math_pow64 (guess s) paymentsPerYear
           in Some (roundDecimals64 (js_sub64 foundRate (Fin 1)) (Fin 4))))"

fun plan_entries64 ::
  "number \<Rightarrow> number \<Rightarrow> jsval list \<Rightarrow> jsval list \<Rightarrow> date \<Rightarrow> nat \<Rightarrow> nat \<Rightarrow> number \<Rightarrow> entry list" where
  "plan_entries64 monthlyRate baseDownPayment principalFees periodFees d i 0 rem = []"
| "plan_entries64 monthlyRate baseDownPayment principalFees periodFees d i (Suc k) rem =
     (let feesPaid' =
            js_add64 (sumArray64 periodFees) (if i = 0 then sumArray64 principalFees else Fin 0);
          interest' = Math_floor64 (js_mul64 rem monthlyRate);
          downPayment' = Math_ceil64 (Math_min64 (js_sub64 baseDownPayment interest') rem);
          rem' = js_sub64 rem downPayment';
          (y, m) = dateAtIndex (int i + 1) d
      in \<lparr>downPayment = downPayment', feesPaid = feesPaid', remainder = rem',
           interest = interest', year = y, month = m\<rparr>
         # plan_entries64 monthlyRate baseDownPayment principalFees periodFees d (Suc i) k rem')"

definition paymentPlanFromToday64 ::
  "number \<Rightarrow> number \<Rightarrow> number \<Rightarrow> jsval list option \<Rightarrow> jsval list option \<Rightarrow> date
     \<Rightarrow> error + entry list" where
  "paymentPlanFromToday64 loanAmount rate period principalFees periodFees today =
     (let months = js_mul64 period (Fin 12);
          monthlyRate = js_div64 rate (Fin 12);
          baseDownPayment = amortization64 loanAmount rate period
      in if 2 ^ 32 - 1 < ToLength months then Inl RangeError
         else Inr (plan_entries64 monthlyRate baseDownPayment (fees_or_default principalFees)
                     (fees_or_default periodFees) today 0 (ToLength months) loanAmount))"

section \<open>Reference definitions\<close>

text \<open>
  The definitions of this section are not translations of the code. They state, in
  the words of the specification, what the functions are said to compute, and give
  the auxiliary notions that the theorems are phrased in.
\<close>

text \<open>The real number that a finite Number stands for.\<close>

fun fin_value :: "number \<Rightarrow> real" where
  "fin_value (Fin x) = x"
| "fin_value _ = 0"

text \<open>
  Rounding to \<open>d\<close> decimal places, a half rounding up; the special values have no
  decimal places to round.
\<close>

fun round_places :: "nat \<Rightarrow> number \<Rightarrow> number" where
  "round_places d (Fin x) = Fin (of_int \<lfloor>x * 10 ^ d + 1 / 2\<rfloor> / 10 ^ d)"
| "round_places d x = x"

text \<open>
  The amortization formula as the specification writes it: with \<open>r = rate / 12\<close> and
  \<open>n = period * 12\<close>, the payment \<open>loanAmount * (r * (1 + r)^n) / ((1 + r)^n - 1)\<close>,
  rounded to two decimal places.
\<close>

definition spec_amortization :: "number \<Rightarrow> number \<Rightarrow> number \<Rightarrow> number" where
  "spec_amortization loanAmount rate period =
     (let r = js_div rate (Fin 12);
          n = js_mul period (Fin 12)
      in round_places 2
           (js_div (js_mul loanAmount (js_mul r (Math_pow (js_add (Fin 1) r) n)))
                   (js_sub (Math_pow (js_add (Fin 1) r) n) (Fin 1))))"

text \<open>
  The bisection of the specification. There is a previous guess from the second pass
  on; the search stops when the guess and the previous guess differ by at most
  \<open>1e-5\<close>.
\<close>

definition successive_within :: "number option \<Rightarrow> number \<Rightarrow> bool" where
  "successive_within previous g =
     (case previous of
        None \<Rightarrow> False
      | Some q \<Rightarrow> js_le (Math_abs (js_sub g q)) (Fin (1 / 100000)))"

partial_function (option) spec_bisect ::
  "number \<Rightarrow> number \<Rightarrow> number \<Rightarrow> number \<Rightarrow> number \<Rightarrow> number option \<Rightarrow> number option" where
  "spec_bisect loanAmount monthlyPayment n lo hi previous =
     (let g = js_add lo (js_div (js_sub hi lo) (Fin 2));
          provisional =
            js_div
              (js_div (js_mul (js_mul monthlyPayment g) (js_sub (Fin 1) (Math_pow g n)))
                      (js_sub (Fin 1) g))
              (Math_pow g (js_add n (Fin 1)));
          hi' = (if js_lt provisional loanAmount then g else hi);
          lo' = (if js_lt provisional loanAmount then lo else g)
      in if successive_within previous g then Some g
         else spec_bisect loanAmount monthlyPayment n lo' hi' (Some g))"

definition spec_solveEffectiveRate :: "number \<Rightarrow> number \<Rightarrow> number \<Rightarrow> number option" where
  "spec_solveEffectiveRate loanAmount monthlyPayment period =
     (case spec_bisect loanAmount monthlyPayment (js_mul period (Fin 12)) (Fin 1) (Fin 2) None of
        None \<Rightarrow> None
      | Some g \<Rightarrow> Some (round_places 4 (js_sub (Math_pow g (Fin 12)) (Fin 1))))"

text \<open>
  The present value of \<open>n\<close> monthly payments \<open>p\<close> at the monthly growth factor \<open>g\<close>:
  the principal that the payments repay.
\<close>

definition annuity_value :: "real \<Rightarrow> nat \<Rightarrow> real \<Rightarrow> real" where
  "annuity_value p n g = p * (\<Sum>j = 1..n. (1 / g) ^ j)"

text \<open>
  The remainder that one callback of the schedule leaves, and the remainder after
  \<open>k\<close> callbacks.
\<close>

definition next_downPayment :: "number \<Rightarrow> number \<Rightarrow> number \<Rightarrow> number" where
  "next_downPayment monthlyRate baseDownPayment r =
     Math_ceil (Math_min (js_sub baseDownPayment (Math_floor (js_mul r monthlyRate))) r)"

definition next_remainder :: "number \<Rightarrow> number \<Rightarrow> number \<Rightarrow> number" where
  "next_remainder monthlyRate baseDownPayment r =
     js_sub r (next_downPayment monthlyRate baseDownPayment r)"

primrec remainder_after :: "number \<Rightarrow> number \<Rightarrow> nat \<Rightarrow> number \<Rightarrow> number" where
  "remainder_after monthlyRate baseDownPayment 0 r = r"
| "remainder_after monthlyRate baseDownPayment (Suc k) r =
     remainder_after monthlyRate baseDownPayment k (next_remainder monthlyRate baseDownPayment r)"

text \<open>
  Bounds of a power with a numeral exponent, by repeated squaring with every
  product rounded to twenty decimal places: downwards for the lower bound, upwards
  for the upper bound.
\<close>

definition round_dn :: "real \<Rightarrow> real" where
  "round_dn y = of_int \<lfloor>y * 10 ^ 20\<rfloor> / 10 ^ 20"

definition round_up :: "real \<Rightarrow> real" where
  "round_up y = of_int \<lceil>y * 10 ^ 20\<rceil> / 10 ^ 20"

primrec pow_lo :: "real \<Rightarrow> num \<Rightarrow> real" where
  "pow_lo x Num.One = x"
| "pow_lo x (Num.Bit0 k) = round_dn ((pow_lo x k)\<^sup>2)"
| "pow_lo x (Num.Bit1 k) = round_dn (round_dn ((pow_lo x k)\<^sup>2) * x)"

primrec pow_hi :: "real \<Rightarrow> num \<Rightarrow> real" where
  "pow_hi x Num.One = x"
| "pow_hi x (Num.Bit0 k) = round_up ((pow_hi x k)\<^sup>2)"
| "pow_hi x (Num.Bit1 k) = round_up (round_up ((pow_hi x k)\<^sup>2) * x)"

text \<open>
  The remainder before the entry of index \<open>i\<close>: the loan amount for the first entry,
  the remainder of the entry before it for every other.
\<close>

definition previous_remainder :: "number \<Rightarrow> entry list \<Rightarrow> nat \<Rightarrow> number" where
  "previous_remainder loanAmount es i = (if i = 0 then loanAmount else remainder (es ! (i - 1)))"

section \<open>Verified bounds of powers\<close>

text \<open>
  The exact value of a power such as \<open>(481 / 480) ^ 300\<close> has more than a thousand
  digits. The bounds \<open>pow_lo\<close> and \<open>pow_hi\<close> enclose it with numbers of twenty
  decimal places, which is enough to decide every rounding and comparison below.
\<close>

lemma round_dn_le: "round_dn y \<le> y"
  unfolding round_dn_def by (simp add: divide_le_eq)
lemma round_up_ge: "y \<le> round_up y"
  unfolding round_up_def by (simp add: le_divide_eq)
lemma round_dn_nonneg: "0 \<le> y \<Longrightarrow> 0 \<le> round_dn y"
  unfolding round_dn_def by simp

lemma pow_Bit0: "(x::real) ^ numeral (Num.Bit0 k) = x ^ numeral k * x ^ numeral k"
  by (simp only: numeral_Bit0 power_add)

lemma pow_Bit1: "(x::real) ^ numeral (Num.Bit1 k) = x ^ numeral k * x ^ numeral k * x"
  by (simp only: numeral_Bit1 power_add power_one_right)

lemma pow_lo_bounds: "0 \<le> x \<Longrightarrow> 0 \<le> pow_lo x k \<and> pow_lo x k \<le> x ^ numeral k"
proof (induction k)
  case One
  then show ?case by simp
next
  case (Bit0 k)
  then have a: "0 \<le> pow_lo x k" and b: "pow_lo x k \<le> x ^ numeral k" by blast+
  have "pow_lo x k * pow_lo x k \<le> x ^ numeral k * x ^ numeral k"
    using b b order_trans[OF a b] a by (rule mult_mono)
  then have "round_dn (pow_lo x k * pow_lo x k) \<le> x ^ numeral (Num.Bit0 k)"
    using round_dn_le order_trans by (subst pow_Bit0) blast
  moreover have "0 \<le> round_dn (pow_lo x k * pow_lo x k)"
    by (rule round_dn_nonneg[OF mult_nonneg_nonneg[OF a a]])
  ultimately show ?case by (simp only: pow_lo.simps power2_eq_square)
next
  case (Bit1 k)
  then have a: "0 \<le> pow_lo x k" and b: "pow_lo x k \<le> x ^ numeral k" by blast+
  have "pow_lo x k * pow_lo x k \<le> x ^ numeral k * x ^ numeral k"
    using b b order_trans[OF a b] a by (rule mult_mono)
  then have c: "round_dn (pow_lo x k * pow_lo x k) \<le> x ^ numeral k * x ^ numeral k"
    using round_dn_le order_trans by blast
  have d: "0 \<le> round_dn (pow_lo x k * pow_lo x k)"
    by (rule round_dn_nonneg[OF mult_nonneg_nonneg[OF a a]])
  have "round_dn (pow_lo x k * pow_lo x k) * x \<le> (x ^ numeral k * x ^ numeral k) * x"
    using c Bit1.prems by (rule mult_right_mono)
  then have "round_dn (round_dn (pow_lo x k * pow_lo x k) * x) \<le> x ^ numeral (Num.Bit1 k)"
    using round_dn_le order_trans by (subst pow_Bit1) blast
  moreover have "0 \<le> round_dn (round_dn (pow_lo x k * pow_lo x k) * x)"
    by (rule round_dn_nonneg[OF mult_nonneg_nonneg[OF d Bit1.prems]])
  ultimately show ?case by (simp only: pow_lo.simps power2_eq_square)
qed

lemma pow_hi_bounds: "0 \<le> x \<Longrightarrow> x ^ numeral k \<le> pow_hi x k"
proof (induction k)
  case One
  then show ?case by simp
next
  case (Bit0 k)
  then have b: "x ^ numeral k \<le> pow_hi x k" by blast
  have p: "0 \<le> x ^ numeral k" using Bit0.prems by (rule zero_le_power)
  have "x ^ numeral k * x ^ numeral k \<le> pow_hi x k * pow_hi x k"
    using b b order_trans[OF p b] p by (rule mult_mono)
  then have "x ^ numeral (Num.Bit0 k) \<le> round_up (pow_hi x k * pow_hi x k)"
    using round_up_ge order_trans by (subst pow_Bit0) blast
  then show ?case by (simp only: pow_hi.simps power2_eq_square)
next
  case (Bit1 k)
  then have b: "x ^ numeral k \<le> pow_hi x k" by blast
  have p: "0 \<le> x ^ numeral k" using Bit1.prems by (rule zero_le_power)
  have "x ^ numeral k * x ^ numeral k \<le> pow_hi x k * pow_hi x k"
    using b b order_trans[OF p b] p by (rule mult_mono)
  then have c: "x ^ numeral k * x ^ numeral k \<le> round_up (pow_hi x k * pow_hi x k)"
    using round_up_ge order_trans by blast
  have "(x ^ numeral k * x ^ numeral k) * x \<le> round_up (pow_hi x k * pow_hi x k) * x"
    using c Bit1.prems by (rule mult_right_mono)
  then have "x ^ numeral (Num.Bit1 k) \<le> round_up (round_up (pow_hi x k * pow_hi x k) * x)"
    using round_up_ge order_trans by (subst pow_Bit1) blast
  then show ?case by (simp only: pow_hi.simps power2_eq_square)
qed

section \<open>The amortization formula\<close>

lemmas bound_eval = round_dn_def round_up_def power2_eq_square

lemma is_int_numeral [simp]: "is_int (numeral k)"
  by (simp add: is_int_def)

lemma Math_pow_numeral: "Math_pow (Fin x) (Fin (numeral k)) = Fin (x ^ numeral k)"
  by (simp add: power_int_def)

lemma roundDecimals_2: "roundDecimals a (Fin 2) = round_places 2 a"
  by (cases a) (simp_all add: roundDecimals_def Math_pow_numeral inf_of_sign_def)

lemma roundDecimals_4: "roundDecimals a (Fin 4) = round_places 4 a"
  by (cases a) (simp_all add: roundDecimals_def Math_pow_numeral inf_of_sign_def)

lemma js_mul_div_assoc: "js_mul a (js_div b c) = js_div (js_mul a b) c"
  by (cases a; cases b; cases c)
     (auto simp: inf_of_sign_def zero_less_mult_iff mult_less_0_iff zero_less_divide_iff
                 divide_less_0_iff zero_le_divide_iff not_less
           split: if_splits)

lemma amortization_eq_spec: "amortization L rate period = spec_amortization L rate period"
  by (simp add: amortization_def spec_amortization_def Let_def roundDecimals_2 js_mul_div_assoc)

lemma amortization_fin:
  assumes "period * 12 = numeral k" and "(1 + rate / 12) ^ numeral k \<noteq> 1"
  shows "amortization (Fin L) (Fin rate) (Fin period) =
         Fin (of_int \<lfloor>L * (rate / 12 * (1 + rate / 12) ^ numeral k
                               / ((1 + rate / 12) ^ numeral k - 1)) * 100 + 1 / 2\<rfloor> / 100)"
  using assms
  by (simp add: amortization_def Let_def roundDecimals_2 Math_pow_numeral js_sub_def)


lemma ratio_antimono:
  fixes P :: real
  assumes "1 < lo" "lo \<le> P" "P \<le> hi"
  shows "hi / (hi - 1) \<le> P / (P - 1)" and "P / (P - 1) \<le> lo / (lo - 1)"
  using assms by (simp_all add: frac_le_eq divide_le_0_iff field_simps)

lemma amortization_value:
  assumes n: "period * 12 = numeral k"
    and pos: "0 < rate" "0 \<le> L"
    and lo: "1 < pow_lo (1 + rate / 12) k"
    and b1: "of_int N - 1 / 2 \<le> 100 * L * (rate / 12)
               * (pow_hi (1 + rate / 12) k / (pow_hi (1 + rate / 12) k - 1))"
    and b2: "100 * L * (rate / 12)
               * (pow_lo (1 + rate / 12) k / (pow_lo (1 + rate / 12) k - 1)) < of_int N + 1 / 2"
  shows "amortization (Fin L) (Fin rate) (Fin period) = Fin (of_int N / 100)"
proof -
  define P where "P = (1 + rate / 12) ^ numeral k"
  have x: "0 \<le> 1 + rate / 12" using pos by simp
  have lP: "pow_lo (1 + rate / 12) k \<le> P" and Ph: "P \<le> pow_hi (1 + rate / 12) k"
    unfolding P_def using pow_lo_bounds[OF x] pow_hi_bounds[OF x] by blast+
  have P1: "P \<noteq> 1" using lo lP by simp
  have c: "0 \<le> 100 * L * (rate / 12)" using pos by simp
  have "100 * L * (rate / 12) * (pow_hi (1 + rate / 12) k / (pow_hi (1 + rate / 12) k - 1))
          \<le> 100 * L * (rate / 12) * (P / (P - 1))"
    using ratio_antimono(1)[OF lo lP Ph] c by (rule mult_left_mono)
  with b1 have l: "of_int N \<le> 100 * L * (rate / 12) * (P / (P - 1)) + 1 / 2" by simp
  have "100 * L * (rate / 12) * (P / (P - 1))
          \<le> 100 * L * (rate / 12) * (pow_lo (1 + rate / 12) k / (pow_lo (1 + rate / 12) k - 1))"
    using ratio_antimono(2)[OF lo lP Ph] c by (rule mult_left_mono)
  with b2 have u: "100 * L * (rate / 12) * (P / (P - 1)) + 1 / 2 < of_int N + 1" by simp
  have "\<lfloor>100 * L * (rate / 12) * (P / (P - 1)) + 1 / 2\<rfloor> = N"
    using l u by (rule floor_unique)
  moreover have "L * (rate / 12 * P / (P - 1)) * 100 = 100 * L * (rate / 12) * (P / (P - 1))"
    by (simp only: times_divide_eq_right times_divide_eq_left divide_divide_eq_left mult_ac)
  ultimately show ?thesis
    using amortization_fin[OF n, of rate L] P1 unfolding P_def by simp
qed

lemma amortization_20000: "amortization (Fin 20000) (Fin (75 / 1000)) (Fin 5) = Fin (40076 / 100)"
  using amortization_value[where period = 5 and k = "Num.Bit0 (Num.Bit0 (Num.Bit1 (Num.Bit1 (Num.Bit1 Num.One))))"
       and rate = "75 / 1000" and L = 20000 and N = 40076]
  by (simp add: bound_eval)

lemma amortization_4000000: "amortization (Fin 4000000) (Fin (25 / 1000)) (Fin 25) = Fin (1794467 / 100)"
  using amortization_value[where period = 25 and k = "Num.Bit0 (Num.Bit0 (Num.Bit1 (Num.Bit1 (Num.Bit0 (Num.Bit1 (Num.Bit0 (Num.Bit0 Num.One)))))))"
       and rate = "25 / 1000" and L = 4000000 and N = 1794467]
  by (simp add: bound_eval)

section \<open>Fee lists\<close>

lemma foldl_js_add_finite:
  "foldl (\<lambda>acc e. js_add acc (parseFloat e)) (Fin a) (filter isNumber arr)
     = Fin (a + (\<Sum>e\<leftarrow>filter isNumber arr. fin_value (parseFloat e)))"
proof (induction arr arbitrary: a)
  case Nil
  then show ?case by simp
next
  case (Cons e arr)
  show ?case
  proof (cases "isNumber e")
    case True
    then obtain x where "parseFloat e = Fin x"
      unfolding isNumber_def by (cases "parseFloat e") auto
    with True show ?thesis
      using Cons.IH[of "a + x"] by (simp add: add.assoc)
  next
    case False
    then show ?thesis using Cons.IH by simp
  qed
qed

lemma sumArray_sum_list:
  "sumArray arr = Fin (\<Sum>e\<leftarrow>filter isNumber arr. fin_value (parseFloat e))"
  unfolding sumArray_def by (simp add: foldl_js_add_finite)

lemma sumArray_single: "isFinite x \<Longrightarrow> sumArray [JNumber x] = x"
  by (cases x) (simp_all add: sumArray_def isNumber_def)

lemma sumArray_empty: "sumArray [] = Fin 0"
  by (simp add: sumArray_def)

lemma js_add_zero_right: "js_add a (Fin 0) = a"
  by (cases a) simp_all



lemma js_mul_NaN_right: "js_mul a NaN = NaN"
  by (cases a) simp_all

lemma js_div_NaN_right: "js_div a NaN = NaN"
  by (cases a) simp_all

lemma js_add_NaN_right: "js_add a NaN = NaN"
  by (cases a) simp_all

lemma Math_pow_one: "Math_pow (Fin 1) y = Fin 1 \<or> Math_pow (Fin 1) y = NaN"
  by (cases y) simp_all

lemma amortization_rate_zero: "amortization loanAmount (Fin 0) period = NaN"
proof -
  have r: "roundDecimals NaN (Fin 2) = NaN"
    by (simp add: roundDecimals_2)
  consider "Math_pow (Fin 1) (js_mul period (Fin 12)) = Fin 1"
    | "Math_pow (Fin 1) (js_mul period (Fin 12)) = NaN"
    using Math_pow_one by blast
  then show ?thesis
  proof cases
    case 1
    then show ?thesis
      by (simp add: amortization_def Let_def js_sub_def js_mul_NaN_right r)
  next
    case 2
    then show ?thesis
      by (simp add: amortization_def Let_def js_sub_def js_mul_NaN_right r)
  qed
qed

text \<open>
  C9. With a rate of exactly 0 the numerator and the denominator are both 0, and
  \<open>_amortization\<close> returns not-a-number, whatever the loan amount and the period. The
  function has no error to raise: its result is a Number in every case.
\<close>

theorem amortization_zero_rate:
  "amortization loanAmount (Fin 0) period = NaN"
  by (rule amortization_rate_zero)

section \<open>The payment schedule\<close>

lemma remainder_after_numeral:
  "remainder_after mr b (numeral n) r = remainder_after mr b (pred_numeral n) (next_remainder mr b r)"
  by (simp add: numeral_eq_Suc)

lemma remainder_after_Suc_right:
  "remainder_after mr b (Suc k) r = next_remainder mr b (remainder_after mr b k r)"
  by (induction k arbitrary: r) simp_all

lemma next_remainder_fin:
  "next_remainder (Fin mr) (Fin b) (Fin r)
     = Fin (r - of_int \<lceil>min (b - of_int \<lfloor>r * mr\<rfloor>) r\<rceil>)"
  by (simp add: next_remainder_def next_downPayment_def js_sub_def min_def)

lemma length_plan_entries: "length (plan_entries mr b pf qf d i k r) = k"
  by (induction k arbitrary: i r) (simp_all add: Let_def split: prod.split)

lemma plan_entries_Suc:
  "\<exists>e. plan_entries mr b pf qf d i (Suc k) r
          = e # plan_entries mr b pf qf d (Suc i) k (next_remainder mr b r)
       \<and> remainder e = next_remainder mr b r
       \<and> downPayment e = next_downPayment mr b r"
  by (simp add: Let_def next_remainder_def next_downPayment_def split: prod.split)

lemma nth_plan_entries:
  "j < k \<Longrightarrow>
     remainder (plan_entries mr b pf qf d i k r ! j) = remainder_after mr b (Suc j) r
     \<and> downPayment (plan_entries mr b pf qf d i k r ! j)
         = next_downPayment mr b (remainder_after mr b j r)"
proof (induction k arbitrary: i r j)
  case 0
  then show ?case by simp
next
  case (Suc k)
  obtain e where e: "plan_entries mr b pf qf d i (Suc k) r
          = e # plan_entries mr b pf qf d (Suc i) k (next_remainder mr b r)"
      "remainder e = next_remainder mr b r" "downPayment e = next_downPayment mr b r"
    using plan_entries_Suc by blast
  show ?case
  proof (cases j)
    case 0
    then show ?thesis using e by simp
  next
    case (Suc j')
    with Suc.prems have "j' < k" by simp
    from Suc.IH[OF this, of "Suc i" "next_remainder mr b r"] Suc e(1) show ?thesis
      by simp
  qed
qed

lemma plan_cases:
  "paymentPlanFromToday loanAmount rate period pf qf today =
     (if 2 ^ 32 - 1 < ToLength (js_mul period (Fin 12)) then Inl RangeError
      else Inr (plan_entries (js_div rate (Fin 12)) (amortization loanAmount rate period)
                  (fees_or_default pf) (fees_or_default qf) today 0
                  (ToLength (js_mul period (Fin 12))) loanAmount))"
  by (simp add: paymentPlanFromToday_def Let_def)

lemma plan_length:
  "paymentPlanFromToday loanAmount rate period pf qf today = Inr es
     \<Longrightarrow> length es = ToLength (js_mul period (Fin 12))"
  by (auto simp: plan_cases length_plan_entries split: if_splits)

lemma plan_nth:
  assumes "paymentPlanFromToday loanAmount rate period pf qf today = Inr es" and "i < length es"
  shows "remainder (es ! i)
           = remainder_after (js_div rate (Fin 12)) (amortization loanAmount rate period) (Suc i) loanAmount"
    and "downPayment (es ! i)
           = next_downPayment (js_div rate (Fin 12)) (amortization loanAmount rate period)
               (remainder_after (js_div rate (Fin 12)) (amortization loanAmount rate period) i loanAmount)"
    and "previous_remainder loanAmount es i
           = remainder_after (js_div rate (Fin 12)) (amortization loanAmount rate period) i loanAmount"
proof -
  let ?k = "ToLength (js_mul period (Fin 12))"
  let ?pl = "plan_entries (js_div rate (Fin 12)) (amortization loanAmount rate period)
                  (fees_or_default pf) (fees_or_default qf) today 0 ?k loanAmount"
  from assms(1) have es: "es = ?pl"
    by (auto simp: plan_cases split: if_splits)
  with assms(2) have i: "i < ?k" by (simp add: length_plan_entries)
  from nth_plan_entries[OF i] es
  show "remainder (es ! i)
           = remainder_after (js_div rate (Fin 12)) (amortization loanAmount rate period) (Suc i) loanAmount"
    and "downPayment (es ! i)
           = next_downPayment (js_div rate (Fin 12)) (amortization loanAmount rate period)
               (remainder_after (js_div rate (Fin 12)) (amortization loanAmount rate period) i loanAmount)"
    by blast+
  show "previous_remainder loanAmount es i
           = remainder_after (js_div rate (Fin 12)) (amortization loanAmount rate period) i loanAmount"
  proof (cases i)
    case 0
    then show ?thesis by (simp add: previous_remainder_def)
  next
    case (Suc i')
    then have "i' < ?k" using i by simp
    from nth_plan_entries[OF this] es Suc show ?thesis
      by (simp add: previous_remainder_def)
  qed
qed

lemma plan_entries_numeral:
  "plan_entries monthlyRate baseDownPayment principalFees periodFees d i (numeral n) r =
     (let feesPaid' = js_add (sumArray periodFees) (if i = 0 then sumArray principalFees else Fin 0);
          interest' = Math_floor (js_mul r monthlyRate);
          downPayment' = Math_ceil (Math_min (js_sub baseDownPayment interest') r);
          rem' = js_sub r downPayment';
          (y, m) = dateAtIndex (int i + 1) d
      in \<lparr>downPayment = downPayment', feesPaid = feesPaid', remainder = rem',
           interest = interest', year = y, month = m\<rparr>
         # plan_entries monthlyRate baseDownPayment principalFees periodFees d (Suc i)
             (pred_numeral n) rem')"
  by (simp only: numeral_eq_Suc plan_entries.simps)

lemma remainder_after_299:
  "remainder_after (Fin (25 / 1000 / 12)) (Fin (1794467 / 100)) 299 (Fin 4000000) = Fin 17569"
  by (simp add: remainder_after_numeral next_remainder_fin)

lemma remainder_after_300:
  "remainder_after (Fin (25 / 1000 / 12)) (Fin (1794467 / 100)) 300 (Fin 4000000) = Fin 0"
  by (simp add: remainder_after_numeral next_remainder_fin)

lemma next_downPayment_last:
  "next_downPayment (Fin (25 / 1000 / 12)) (Fin (1794467 / 100)) (Fin 17569) = Fin 17569"
  by (simp add: next_downPayment_def js_sub_def)

lemma plan_4000000:
  assumes "paymentPlanFromToday (Fin 4000000) (Fin (25 / 1000)) (Fin 25) pf qf today = Inr es"
  shows "length es = 300" and "remainder (last es) = Fin 0"
    and "downPayment (last es) = Fin 17569" and "remainder (es ! 298) = Fin 17569"
proof -
  have mr: "js_div (Fin (25 / 1000)) (Fin 12) = Fin (25 / 1000 / 12)" by simp
  show len: "length es = 300"
    using plan_length[OF assms] by simp
  then have last: "last es = es ! 299"
    by (simp add: last_conv_nth[of es] length_0_conv[symmetric] del: length_0_conv)
  have i299: "299 < length es" and i298: "298 < length es" using len by simp_all
  have s299: "Suc 299 = 300" and s298: "Suc 298 = 299" by simp_all
  show "remainder (last es) = Fin 0"
    unfolding last plan_nth(1)[OF assms i299] mr amortization_4000000 s299
    by (rule remainder_after_300)
  show "downPayment (last es) = Fin 17569"
    unfolding last plan_nth(2)[OF assms i299] mr amortization_4000000 remainder_after_299
    by (rule next_downPayment_last)
  show "remainder (es ! 298) = Fin 17569"
    unfolding plan_nth(1)[OF assms i298] mr amortization_4000000 s298
    by (rule remainder_after_299)
qed


section \<open>The effective-rate solver\<close>

lemma guessLimit_value: "guessLimit = Fin (1 / 100000)"
  by (simp add: guessLimit_def is_int_def power_int_def power_divide)

lemma solver_body_fin:
  "solver_body L p per \<lparr>high = Fin h, low = Fin l, guess = Fin g, previousGuess = q\<rparr> =
     (if js_lt (prov_of p per (Fin ((h - l) / 2 + l))) L
      then \<lparr>high = Fin ((h - l) / 2 + l), low = Fin l, guess = Fin ((h - l) / 2 + l),
            previousGuess = Fin g\<rparr>
      else \<lparr>high = Fin h, low = Fin ((h - l) / 2 + l), guess = Fin ((h - l) / 2 + l),
            previousGuess = Fin g\<rparr>)"
  by (simp add: solver_body_def Let_def js_sub_def)

lemma solver_continues_fin:
  "solver_continues \<lparr>high = h, low = l, guess = Fin g, previousGuess = Fin q\<rparr>
     = (1 / 100000 < \<bar>g - q\<bar>)"
  by (simp add: solver_continues_def guessLimit_value js_gt_def js_sub_def)

text \<open>
  The state after \<open>k\<close> passes, whatever the comparisons decided: the bounds are finite
  and \<open>1 / 2 ^ k\<close> apart, and from the first pass on the guess is one of the bounds.
\<close>

lemma solver_iter_inv:
  "\<exists>l h g q. (solver_body L p per ^^ k) solver_init
              = \<lparr>high = Fin h, low = Fin l, guess = Fin g, previousGuess = Fin q\<rparr>
      \<and> h - l = 1 / 2 ^ k \<and> 1 \<le> l \<and> h \<le> 2
      \<and> (if k = 0 then g = 0 \<and> q = 0
          else (g = l \<or> g = h) \<and> (if k = 1 then g - q = 3 / 2 else \<bar>g - q\<bar> = 1 / 2 ^ k))"
proof (induction k)
  case 0
  then show ?case by (simp add: solver_init_def)
next
  case (Suc k)
  then obtain l h g q where s: "(solver_body L p per ^^ k) solver_init
              = \<lparr>high = Fin h, low = Fin l, guess = Fin g, previousGuess = Fin q\<rparr>"
      and w: "h - l = 1 / 2 ^ k" and b: "1 \<le> l" "h \<le> 2"
      and c: "if k = 0 then g = 0 \<and> q = 0
              else (g = l \<or> g = h) \<and> (if k = 1 then g - q = 3 / 2 else \<bar>g - q\<bar> = 1 / 2 ^ k)"
    by blast
  define m where "m = (h - l) / 2 + l"
  have pos: "0 < h - l" using w by simp
  have wm: "m - l = 1 / 2 ^ Suc k" "h - m = 1 / 2 ^ Suc k"
    using w by (simp_all add: m_def field_simps)
  have lm: "l < m" "m < h" using pos by (simp_all add: m_def field_simps)
  have k0: "k = 0 \<Longrightarrow> m = 3 / 2"
  proof -
    assume "k = 0"
    with s have "l = 1" "h = 2" by (simp_all add: solver_init_def)
    then show ?thesis by (simp add: m_def)
  qed
  have d: "if Suc k = 1 then m - g = 3 / 2 else \<bar>m - g\<bar> = 1 / 2 ^ Suc k"
  proof (cases "k = 0")
    case True
    with c k0 show ?thesis by simp
  next
    case False
    with c have "g = l \<or> g = h" by simp
    then have "\<bar>m - g\<bar> = 1 / 2 ^ Suc k"
      using wm lm by (auto simp: abs_if)
    with False show ?thesis by simp
  qed
  have step: "(solver_body L p per ^^ Suc k) solver_init
          = \<lparr>high = Fin m, low = Fin l, guess = Fin m, previousGuess = Fin g\<rparr>
        \<or> (solver_body L p per ^^ Suc k) solver_init
          = \<lparr>high = Fin h, low = Fin m, guess = Fin m, previousGuess = Fin g\<rparr>"
    by (simp add: s solver_body_fin m_def)
  then show ?case
  proof
    assume "(solver_body L p per ^^ Suc k) solver_init
          = \<lparr>high = Fin m, low = Fin l, guess = Fin m, previousGuess = Fin g\<rparr>"
    then show ?thesis using wm(1) b lm d by (intro exI[of _ l] exI[of _ m] exI[of _ g]) auto
  next
    assume "(solver_body L p per ^^ Suc k) solver_init
          = \<lparr>high = Fin h, low = Fin m, guess = Fin m, previousGuess = Fin g\<rparr>"
    then show ?thesis using wm(2) b lm d by (intro exI[of _ m] exI[of _ h] exI[of _ g]) auto
  qed
qed

lemma pow2_small: "k \<le> 16 \<Longrightarrow> (2::real) ^ k < 100000"
proof -
  assume "k \<le> 16"
  then have "(2::real) ^ k \<le> 2 ^ 16" by (intro power_increasing) auto
  then show ?thesis by simp
qed

lemma pow2_large: "17 \<le> k \<Longrightarrow> (100000::real) < 2 ^ k"
proof -
  assume "17 \<le> k"
  then have "(2::real) ^ 17 \<le> 2 ^ k" by (intro power_increasing) auto
  then show ?thesis by simp
qed

lemma solver_continues_iff:
  assumes "1 \<le> k"
  shows "solver_continues ((solver_body L p per ^^ k) solver_init) \<longleftrightarrow> k \<le> 16"
proof -
  obtain l h g q where s: "(solver_body L p per ^^ k) solver_init
              = \<lparr>high = Fin h, low = Fin l, guess = Fin g, previousGuess = Fin q\<rparr>"
      and c: "if k = 1 then g - q = 3 / 2 else \<bar>g - q\<bar> = 1 / 2 ^ k"
    using solver_iter_inv[where k = k and L = L and p = p and per = per] assms by auto
  show ?thesis
  proof (cases "k = 1")
    case True
    with c have "g - q = 3 / 2" by simp
    then show ?thesis unfolding s solver_continues_fin using True by simp
  next
    case False
    with c have e: "\<bar>g - q\<bar> = 1 / 2 ^ k" by simp
    have "(1 / 100000 < 1 / (2::real) ^ k) \<longleftrightarrow> k \<le> 16"
    proof (cases "k \<le> 16")
      case True
      with pow2_small[OF True] show ?thesis by (simp add: field_simps)
    next
      case False
      then have "17 \<le> k" by simp
      with pow2_large[OF this] False show ?thesis by (simp add: field_simps)
    qed
    then show ?thesis unfolding s solver_continues_fin e .
  qed
qed

lemma solver_loop_step:
  "solver_loop L p per ((solver_body L p per ^^ k) solver_init) =
     (if solver_continues ((solver_body L p per ^^ Suc k) solver_init)
      then solver_loop L p per ((solver_body L p per ^^ Suc k) solver_init)
      else Some ((solver_body L p per ^^ Suc k) solver_init))"
  by (subst solver_loop.simps) (simp add: Let_def)

lemma solver_loop_from:
  "j \<le> 16 \<Longrightarrow> solver_loop L p per ((solver_body L p per ^^ (16 - j)) solver_init)
     = Some ((solver_body L p per ^^ 17) solver_init)"
proof (induction j)
  case 0
  have "\<not> solver_continues ((solver_body L p per ^^ Suc 16) solver_init)"
    by (subst solver_continues_iff) simp_all
  then have "solver_loop L p per ((solver_body L p per ^^ 16) solver_init)
               = Some ((solver_body L p per ^^ Suc 16) solver_init)"
    by (subst solver_loop_step) (simp only: if_False)
  moreover have "Suc 16 = 17" by simp
  ultimately show ?case by (simp only: diff_zero)
next
  case (Suc j)
  define k where "k = 16 - Suc j"
  have k1: "Suc k = 16 - j" using Suc.prems by (simp add: k_def)
  have "solver_continues ((solver_body L p per ^^ Suc k) solver_init)"
    using Suc.prems by (subst solver_continues_iff) (simp_all add: k1)
  then have "solver_loop L p per ((solver_body L p per ^^ k) solver_init)
               = solver_loop L p per ((solver_body L p per ^^ Suc k) solver_init)"
    by (subst solver_loop_step) (simp only: if_True)
  also have "\<dots> = Some ((solver_body L p per ^^ 17) solver_init)"
    unfolding k1 using Suc by simp
  finally show ?case unfolding k_def .
qed

lemma solver_loop_result:
  "solver_loop L p per solver_init = Some ((solver_body L p per ^^ 17) solver_init)"
  using solver_loop_from[where j = 16] by simp

lemma effectiveInterest_result:
  "effectiveInterest L p per
     = Some (round_places 4
               (js_sub (Math_pow (guess ((solver_body L p per ^^ 17) solver_init)) (Fin 12)) (Fin 1)))"
  by (simp add: effectiveInterest_def solver_loop_result roundDecimals_4)

lemma js_add_commute: "js_add a b = js_add b a"
  by (cases a; cases b) simp_all

lemma previousGuess_solver_body: "previousGuess (solver_body L p per s) = guess s"
  by (simp add: solver_body_def Let_def)

lemma spec_bisect_body:
  "spec_bisect L p (js_mul per (Fin 12)) (low s) (high s) prev =
     (if successive_within prev (guess (solver_body L p per s))
      then Some (guess (solver_body L p per s))
      else spec_bisect L p (js_mul per (Fin 12)) (low (solver_body L p per s))
             (high (solver_body L p per s)) (Some (guess (solver_body L p per s))))"
  by (subst spec_bisect.simps)
     (simp add: solver_body_def prov_of_def Let_def js_add_commute[of "low s"])

lemma successive_iff:
  assumes "1 \<le> k"
  shows "successive_within (Some (guess ((solver_body L p per ^^ k) solver_init)))
           (guess ((solver_body L p per ^^ Suc k) solver_init))
         = (\<not> solver_continues ((solver_body L p per ^^ Suc k) solver_init))"
proof -
  obtain l h g q where s: "(solver_body L p per ^^ Suc k) solver_init
              = \<lparr>high = Fin h, low = Fin l, guess = Fin g, previousGuess = Fin q\<rparr>"
    using solver_iter_inv[where k = "Suc k" and L = L and p = p and per = per] by blast
  have "previousGuess ((solver_body L p per ^^ Suc k) solver_init)
          = guess ((solver_body L p per ^^ k) solver_init)"
    by (simp add: previousGuess_solver_body)
  with s have q: "guess ((solver_body L p per ^^ k) solver_init) = Fin q" by simp
  show ?thesis
    unfolding q s solver_continues_fin
    by (auto simp: successive_within_def js_sub_def)
qed

lemma spec_bisect_from:
  "j \<le> 16 \<Longrightarrow>
     spec_bisect L p (js_mul per (Fin 12))
       (low ((solver_body L p per ^^ (16 - j)) solver_init))
       (high ((solver_body L p per ^^ (16 - j)) solver_init))
       (if 16 - j = 0 then None else Some (guess ((solver_body L p per ^^ (16 - j)) solver_init)))
     = Some (guess ((solver_body L p per ^^ 17) solver_init))"
proof (induction j)
  case 0
  have "\<not> solver_continues ((solver_body L p per ^^ Suc 16) solver_init)"
    by (subst solver_continues_iff) simp_all
  then have "successive_within (Some (guess ((solver_body L p per ^^ 16) solver_init)))
           (guess ((solver_body L p per ^^ Suc 16) solver_init))"
    by (subst successive_iff) simp_all
  then have "spec_bisect L p (js_mul per (Fin 12))
       (low ((solver_body L p per ^^ 16) solver_init))
       (high ((solver_body L p per ^^ 16) solver_init))
       (Some (guess ((solver_body L p per ^^ 16) solver_init)))
     = Some (guess ((solver_body L p per ^^ Suc 16) solver_init))"
    by (subst spec_bisect_body) (simp only: funpow.simps o_apply if_True)
  moreover have "Suc 16 = 17" by simp
  ultimately show ?case by simp
next
  case (Suc j)
  define k where "k = 16 - Suc j"
  define prev where "prev = (if k = 0 then None
     else Some (guess ((solver_body L p per ^^ k) solver_init)))"
  have k1: "Suc k = 16 - j" using Suc.prems by (simp add: k_def)
  have c: "solver_continues ((solver_body L p per ^^ Suc k) solver_init)"
    using Suc.prems by (subst solver_continues_iff) (simp_all add: k1)
  have "\<not> successive_within prev (guess ((solver_body L p per ^^ Suc k) solver_init))"
  proof (cases "k = 0")
    case True
    then show ?thesis by (simp add: prev_def successive_within_def)
  next
    case False
    then have "1 \<le> k" by simp
    from successive_iff[OF this, of L p per] c False show ?thesis by (simp add: prev_def)
  qed
  then have "spec_bisect L p (js_mul per (Fin 12))
       (low ((solver_body L p per ^^ k) solver_init))
       (high ((solver_body L p per ^^ k) solver_init)) prev
     = spec_bisect L p (js_mul per (Fin 12))
       (low ((solver_body L p per ^^ Suc k) solver_init))
       (high ((solver_body L p per ^^ Suc k) solver_init))
       (Some (guess ((solver_body L p per ^^ Suc k) solver_init)))"
    by (subst spec_bisect_body) (simp only: funpow.simps o_apply if_False)
  also have "\<dots> = Some (guess ((solver_body L p per ^^ 17) solver_init))"
    unfolding k1 using Suc by simp
  finally show ?case unfolding k_def prev_def .
qed

lemma spec_bisect_result:
  "spec_bisect L p (js_mul per (Fin 12)) (Fin 1) (Fin 2) None
     = Some (guess ((solver_body L p per ^^ 17) solver_init))"
  using spec_bisect_from[where j = 16 and L = L and p = p and per = per]
  by (simp add: solver_init_def)

lemma effectiveInterest_eq_spec:
  "effectiveInterest L p per = spec_solveEffectiveRate L p per"
  by (simp add: effectiveInterest_result spec_solveEffectiveRate_def spec_bisect_result)

lemma Math_pow_nat:
  assumes "x \<noteq> 0" and "0 < n"
  shows "Math_pow (Fin x) (Fin (real n)) = Fin (x ^ n)"
  using assms by (simp add: is_int_def)

lemma prov_of_fin:
  assumes "1 < g" and "per * 12 = real n" and "0 < n"
  shows "prov_of (Fin p) (Fin per) (Fin g) = Fin (p * g * (1 - g ^ n) / (1 - g) / g ^ Suc n)"
proof -
  have g0: "g \<noteq> 0" using assms(1) by simp
  have e: "per * 12 + 1 = real (Suc n)" using assms(2) by simp
  have p1: "Math_pow (Fin g) (Fin (per * 12)) = Fin (g ^ n)"
    unfolding assms(2) using g0 assms(3) by (rule Math_pow_nat)
  have p2: "Math_pow (Fin g) (Fin (per * 12 + 1)) = Fin (g ^ Suc n)"
    unfolding e using g0 by (intro Math_pow_nat) simp_all
  show ?thesis
    using assms(1) g0
    by (simp add: prov_of_def Let_def p1 p2 js_sub_def del: Math_pow.simps power_Suc)
qed

lemma prov_lt_iff:
  fixes g p L :: real
  assumes "1 < g" and "0 < p"
  shows "p * g * (1 - g ^ n) / (1 - g) / g ^ Suc n < L \<longleftrightarrow> (p - L * (g - 1)) * g ^ n < p"
proof -
  have gn: "0 < g ^ n" using assms(1) by simp
  have "p * g * (1 - g ^ n) / (1 - g) / g ^ Suc n = p * (g ^ n - 1) / ((g - 1) * g ^ n)"
    using assms(1) gn by (simp add: field_simps)
  also have "\<dots> < L \<longleftrightarrow> p * (g ^ n - 1) < L * ((g - 1) * g ^ n)"
    using assms(1) gn by (simp add: pos_divide_less_eq)
  also have "\<dots> \<longleftrightarrow> (p - L * (g - 1)) * g ^ n < p"
    by (simp add: algebra_simps)
  finally show ?thesis .
qed


lemma solver_body_5_high:
  assumes "1 < (h - l) / 2 + l" and "0 < p"
    and "p - L * ((h - l) / 2 + l - 1) \<le> 0
         \<or> pow_hi ((h - l) / 2 + l) (num.Bit0 (num.Bit0 (num.Bit1 (num.Bit1 (num.Bit1 num.One)))))
             < p / (p - L * ((h - l) / 2 + l - 1))"
  shows "solver_body (Fin L) (Fin p) (Fin 5)
           \<lparr>high = Fin h, low = Fin l, guess = Fin g, previousGuess = q\<rparr>
         = \<lparr>high = Fin ((h - l) / 2 + l), low = Fin l, guess = Fin ((h - l) / 2 + l),
            previousGuess = Fin g\<rparr>"
proof -
  define m where "m = (h - l) / 2 + l"
  define c where "c = p - L * (m - 1)"
  have m: "1 < m" "0 \<le> m" using assms(1) by (simp_all add: m_def)
  have pr: "prov_of (Fin p) (Fin 5) (Fin m) = Fin (p * m * (1 - m ^ 60) / (1 - m) / m ^ Suc 60)"
    using m(1) by (intro prov_of_fin) simp_all
  have "c * m ^ 60 < p"
  proof (cases "c \<le> 0")
    case True
    have "0 \<le> m ^ 60" using m(2) by simp
    with True have "c * m ^ 60 \<le> 0" by (rule mult_nonpos_nonneg)
    with assms(2) show ?thesis by simp
  next
    case False
    then have c: "0 < c" by simp
    with assms(3) have "pow_hi m (num.Bit0 (num.Bit0 (num.Bit1 (num.Bit1 (num.Bit1 num.One))))) < p / c"
      by (simp add: m_def c_def)
    with pow_hi_bounds[OF m(2)] have "m ^ 60 < p / c" by (rule le_less_trans)
    with c show ?thesis by (simp add: pos_less_divide_eq mult.commute)
  qed
  then have "js_lt (prov_of (Fin p) (Fin 5) (Fin m)) (Fin L)"
    unfolding pr c_def using prov_lt_iff[OF m(1) assms(2), of 60 L] by simp
  then show ?thesis
    by (simp add: solver_body_fin m_def)
qed

lemma solver_body_5_low:
  assumes "1 < (h - l) / 2 + l" and "0 < p"
    and "0 < p - L * ((h - l) / 2 + l - 1)"
    and "p / (p - L * ((h - l) / 2 + l - 1))
           \<le> pow_lo ((h - l) / 2 + l) (num.Bit0 (num.Bit0 (num.Bit1 (num.Bit1 (num.Bit1 num.One)))))"
  shows "solver_body (Fin L) (Fin p) (Fin 5)
           \<lparr>high = Fin h, low = Fin l, guess = Fin g, previousGuess = q\<rparr>
         = \<lparr>high = Fin h, low = Fin ((h - l) / 2 + l), guess = Fin ((h - l) / 2 + l),
            previousGuess = Fin g\<rparr>"
proof -
  define m where "m = (h - l) / 2 + l"
  define c where "c = p - L * (m - 1)"
  have m: "1 < m" "0 \<le> m" using assms(1) by (simp_all add: m_def)
  have c: "0 < c" using assms(3) by (simp add: m_def c_def)
  have pr: "prov_of (Fin p) (Fin 5) (Fin m) = Fin (p * m * (1 - m ^ 60) / (1 - m) / m ^ Suc 60)"
    using m(1) by (intro prov_of_fin) simp_all
  have "p / c \<le> pow_lo m (num.Bit0 (num.Bit0 (num.Bit1 (num.Bit1 (num.Bit1 num.One)))))"
    using assms(4) by (simp add: m_def c_def)
  also have "\<dots> \<le> m ^ 60" by (rule conjunct2[OF pow_lo_bounds[OF m(2)]])
  finally have "p \<le> c * m ^ 60" using c by (simp add: pos_divide_le_eq mult.commute)
  then have "\<not> js_lt (prov_of (Fin p) (Fin 5) (Fin m)) (Fin L)"
    unfolding pr c_def using prov_lt_iff[OF m(1) assms(2), of 60 L] by simp
  then show ?thesis
    by (simp add: solver_body_fin m_def)
qed

lemma funpow_numeral_unroll: "(f ^^ numeral n) x = (f ^^ pred_numeral n) (f x)"
  by (simp add: numeral_eq_Suc funpow_swap1)

lemmas solver_eval = funpow_numeral_unroll solver_init_def solver_body_5_high solver_body_5_low
  round_dn_def round_up_def power2_eq_square

lemma solver_17000:
  "(solver_body (Fin 17000) (Fin 518) (Fin 5) ^^ 17) solver_init
     = \<lparr>high = Fin (67005 / 65536), low = Fin (134009 / 131072),
        guess = Fin (134009 / 131072), previousGuess = Fin (67005 / 65536)\<rparr>"
  by (simp add: solver_eval)

lemma solver_20000:
  "(solver_body (Fin 20000) (Fin (40076 / 100)) (Fin 5) ^^ 17) solver_init
     = \<lparr>high = Fin (32973 / 32768), low = Fin (131891 / 131072),
        guess = Fin (131891 / 131072), previousGuess = Fin (65945 / 65536)\<rparr>"
  by (simp add: solver_eval)

lemma effectiveInterest_17000:
  "effectiveInterest (Fin 17000) (Fin 518) (Fin 5) = Some (Fin (3046 / 10000))"
  by (simp add: effectiveInterest_result solver_17000 js_sub_def is_int_def power_int_def
        power_divide)

lemma effectiveInterest_20000:
  "effectiveInterest (Fin 20000) (Fin (40076 / 100)) (Fin 5) = Some (Fin (776 / 10000))"
  by (simp add: effectiveInterest_result solver_20000[simplified] js_sub_def is_int_def
        power_int_def power_divide)

lemma solver_width:
  "js_sub (high ((solver_body L p per ^^ k) solver_init))
          (low ((solver_body L p per ^^ k) solver_init)) = Fin (1 / 2 ^ k)"
proof -
  obtain l h g q where "(solver_body L p per ^^ k) solver_init
              = \<lparr>high = Fin h, low = Fin l, guess = Fin g, previousGuess = Fin q\<rparr>"
      and "h - l = 1 / 2 ^ k"
    using solver_iter_inv[where k = k and L = L and p = p and per = per] by blast
  then show ?thesis by (simp add: js_sub_def)
qed

text \<open>
  C7. The loop of \<open>effectiveInterest\<close> ends, for every input, after exactly 17
  passes. The bounds are 1 apart at the start and their distance halves with every
  pass; the loop goes on after each of the passes 1 to 16 and stops after pass 17,
  when two successive guesses differ by \<open>2^-17\<close>, which is at most \<open>1e-5\<close>.
\<close>

theorem solver_seventeen_passes:
  "solver_loop loanAmount monthlyPayment period solver_init
     = Some ((solver_body loanAmount monthlyPayment period ^^ 17) solver_init)
   \<and> (1 \<le> k \<and> k \<le> 16
        \<longrightarrow> solver_continues ((solver_body loanAmount monthlyPayment period ^^ k) solver_init))
   \<and> \<not> solver_continues ((solver_body loanAmount monthlyPayment period ^^ 17) solver_init)
   \<and> js_sub (high ((solver_body loanAmount monthlyPayment period ^^ k) solver_init))
             (low ((solver_body loanAmount monthlyPayment period ^^ k) solver_init))
       = Fin (1 / 2 ^ k)
   \<and> (\<exists>v. effectiveInterest loanAmount monthlyPayment period = Some v)"
proof -
  have "\<not> solver_continues ((solver_body loanAmount monthlyPayment period ^^ 17) solver_init)"
    by (subst solver_continues_iff) simp_all
  moreover have "1 \<le> k \<and> k \<le> 16
        \<longrightarrow> solver_continues ((solver_body loanAmount monthlyPayment period ^^ k) solver_init)"
    using solver_continues_iff[where k = k] by blast
  ultimately show ?thesis
    using solver_loop_result solver_width effectiveInterest_result by blast
qed

theorem solver_seventeen_passes_witness:
  "(1::nat) \<le> 5 \<and> (5::nat) \<le> 16
   \<and> solver_continues ((solver_body (Fin 17000) (Fin 518) (Fin 5) ^^ 5) solver_init)"
  using solver_seventeen_passes[of "Fin 17000" "Fin 518" "Fin 5" 5]
  by simp


section \<open>Properties of the rounding\<close>

lemma rhe_of_int [simp]: "rhe (of_int k) = k"
  by (simp add: rhe_def)

lemma rhe_cases: "rhe y = \<lfloor>y\<rfloor> \<or> rhe y = \<lfloor>y\<rfloor> + 1"
  by (simp add: rhe_def Let_def)

lemma rhe_ge: "of_int j \<le> y \<Longrightarrow> j \<le> rhe y"
proof -
  assume "of_int j \<le> y"
  then have "j \<le> \<lfloor>y\<rfloor>" by (simp only: le_floor_iff)
  with rhe_cases[of y] show ?thesis by linarith
qed

lemma rhe_le: "y \<le> of_int j \<Longrightarrow> rhe y \<le> j"
proof (cases "y = of_int j")
  case True
  then show ?thesis by simp
next
  case False
  assume "y \<le> of_int j"
  with False have "y < of_int j" by simp
  then have "\<lfloor>y\<rfloor> < j" by (simp only: floor_less_iff)
  with rhe_cases[of y] show ?thesis by linarith
qed

lemma rhe_mono: "x \<le> y \<Longrightarrow> rhe x \<le> rhe y"
proof -
  assume a: "x \<le> y"
  have fm: "\<lfloor>x\<rfloor> \<le> \<lfloor>y\<rfloor>" using a by (rule floor_mono)
  show ?thesis
  proof (cases "\<lfloor>x\<rfloor> = \<lfloor>y\<rfloor>")
    case True
    then have d: "x - of_int \<lfloor>x\<rfloor> \<le> y - of_int \<lfloor>x\<rfloor>" using a by simp
    show ?thesis
      unfolding rhe_def Let_def True[symmetric] using d by (simp split: if_splits) linarith?
  next
    case False
    with fm have "\<lfloor>x\<rfloor> + 1 \<le> \<lfloor>y\<rfloor>" by simp
    with rhe_cases[of x] rhe_cases[of y] show ?thesis by linarith
  qed
qed

lemma rhe_split:
  assumes "0 \<le> d" and "d < 1"
  shows "rhe (of_int f + d) =
           (if d < 1 / 2 then f else if 1 / 2 < d then f + 1 else if even f then f else f + 1)"
proof -
  have "\<lfloor>of_int f + d\<rfloor> = f"
    using assms by (intro floor_unique) simp_all
  then show ?thesis by (simp add: rhe_def Let_def)
qed

lemma split_real: "\<exists>d. 0 \<le> d \<and> d < 1 \<and> (y::real) = of_int \<lfloor>y\<rfloor> + d"
proof -
  have "of_int \<lfloor>y\<rfloor> \<le> y" "y < of_int \<lfloor>y\<rfloor> + 1" by linarith+
  then have "0 \<le> y - of_int \<lfloor>y\<rfloor> \<and> y - of_int \<lfloor>y\<rfloor> < 1 \<and> y = of_int \<lfloor>y\<rfloor> + (y - of_int \<lfloor>y\<rfloor>)"
    by linarith
  then show ?thesis by blast
qed

lemma rhe_minus: "rhe (- y) = - rhe y"
proof -
  obtain d where d: "0 \<le> d" "d < 1" and y: "y = of_int \<lfloor>y\<rfloor> + d"
    using split_real by blast
  define f where "f = \<lfloor>y\<rfloor>"
  show ?thesis
  proof (cases "d = 0")
    case True
    then have "y = of_int f" "- y = of_int (- f)" using y by (simp_all add: f_def)
    then show ?thesis by (simp only: rhe_of_int)
  next
    case False
    then have d1: "0 \<le> 1 - d" "1 - d < 1" using d by simp_all
    have my: "- y = of_int (- f - 1) + (1 - d)" using y by (simp add: f_def)
    have ev: "even (- f - 1) = odd f" by simp
    have "rhe y = (if d < 1 / 2 then f else if 1 / 2 < d then f + 1
                   else if even f then f else f + 1)"
      by (subst y) (simp only: f_def[symmetric] rhe_split[OF d])
    moreover have "rhe (- y) = (if 1 - d < 1 / 2 then - f - 1 else if 1 / 2 < 1 - d then - f - 1 + 1
                   else if even (- f - 1) then - f - 1 else - f - 1 + 1)"
      by (subst my) (simp only: rhe_split[OF d1])
    ultimately show ?thesis
      unfolding ev using d False by (simp split: if_splits) linarith?
  qed
qed

lemma rhe_err: "\<bar>of_int (rhe y) - y\<bar> \<le> 1 / 2"
proof -
  obtain d where d: "0 \<le> d" "d < 1" and y: "y = of_int \<lfloor>y\<rfloor> + d"
    using split_real by blast
  define f where "f = \<lfloor>y\<rfloor>"
  have r: "rhe y = (if d < 1 / 2 then f else if 1 / 2 < d then f + 1
                   else if even f then f else f + 1)"
    by (subst y) (simp only: f_def[symmetric] rhe_split[OF d])
  have "\<bar>of_int (rhe y) - (of_int f + d)\<bar> \<le> 1 / 2"
    unfolding r using d by (simp add: abs_if)
  then show ?thesis using y by (simp add: f_def)
qed

subsection \<open>The binary exponent\<close>

lemma two_powi_pos [simp]: "0 < (2::real) powi k"
  by (simp add: zero_less_power_int)

lemma two_powi_mono: "a \<le> b \<Longrightarrow> (2::real) powi a \<le> 2 powi b"
  by (rule power_int_increasing) simp_all

lemma two_powi_strict_mono: "a < b \<Longrightarrow> (2::real) powi a < 2 powi b"
  by (rule power_int_strict_increasing) simp_all

lemma two_powi_le_iff [simp]: "(2::real) powi a \<le> 2 powi b \<longleftrightarrow> a \<le> b"
  using two_powi_mono [of a b] two_powi_strict_mono [of b a] by (auto simp: not_le [symmetric])

lemma two_powi_less_iff [simp]: "(2::real) powi a < 2 powi b \<longleftrightarrow> a < b"
  using two_powi_le_iff [of b a] by (simp only: not_le [symmetric])

lemma two_powi_add: "(2::real) powi (a + b) = 2 powi a * 2 powi b"
  by (rule power_int_add) simp

lemma two_powi_diff: "(2::real) powi (a - b) = 2 powi a / 2 powi b"
  by (rule power_int_diff) simp

lemma two_powi_nat: "0 \<le> k \<Longrightarrow> (2::real) powi k = 2 ^ nat k"
  by (simp add: power_int_def)

lemma expo_ge: "- 1022 \<le> expo x"
proof -
  let ?n = "\<lfloor>\<bar>x\<bar> * 2 ^ 1074\<rfloor>"
  show ?thesis
  proof (cases "?n < 2 ^ 52")
    case True
    then show ?thesis by (simp add: expo_def)
  next
    case False
    then have "(2::int) ^ 52 \<le> ?n" by simp
    then have "53 \<le> bitlen ?n"
      using bitlen_ge_iff_power [of 53 ?n] by simp
    with False show ?thesis by (simp add: expo_def Let_def)
  qed
qed

lemma expo_small:
  assumes "\<bar>x\<bar> < 2 powi (- 1022)"
  shows "expo x = - 1022"
proof -
  have "\<bar>x\<bar> * 2 ^ 1074 < 2 powi (- 1022) * 2 ^ 1074"
    using assms by simp
  also have "2 powi (- 1022) * 2 ^ 1074 = (2::real) powi (- 1022 + 1074)"
    by (subst two_powi_add) (simp add: two_powi_nat)
  also have "\<dots> = 2 ^ 52" by (simp add: two_powi_nat)
  finally have "\<lfloor>\<bar>x\<bar> * 2 ^ 1074\<rfloor> < 2 ^ 52"
    by (simp add: floor_less_iff)
  then show ?thesis by (simp add: expo_def)
qed

lemma expo_bounds:
  assumes "2 powi (- 1022) \<le> \<bar>x\<bar>"
  shows "2 powi expo x \<le> \<bar>x\<bar>" and "\<bar>x\<bar> < 2 powi (expo x + 1)"
proof -
  define s where "s = \<bar>x\<bar> * 2 ^ 1074"
  define n where "n = \<lfloor>s\<rfloor>"
  have s: "s = \<bar>x\<bar> * 2 powi 1074" by (simp add: s_def)
  have "(2::real) powi 52 = 2 powi (- 1022) * 2 powi 1074"
    unfolding two_powi_add [symmetric] by simp
  also have "\<dots> \<le> s" unfolding s using assms by simp
  finally have "(2::real) ^ 52 \<le> s" by simp
  then have "of_int (2 ^ 52) \<le> s" by simp
  then have n52: "2 ^ 52 \<le> n" unfolding n_def le_floor_iff .
  moreover have "(0::int) < 2 ^ 52" by simp
  ultimately have npos: "0 < n" by linarith
  have e: "expo x = bitlen n - 1075"
    using n52 by (simp add: expo_def Let_def n_def s_def)
  have b1: "1 \<le> bitlen n"
    using npos by (simp add: bitlen_alt_def)
  from bitlen_bounds [OF npos]
  have lo: "2 ^ nat (bitlen n - 1) \<le> n" and hi: "n < 2 ^ nat (bitlen n)" by simp_all
  have ns: "real_of_int n \<le> s" "s < real_of_int (n + 1)"
    unfolding n_def by linarith+
  have "real_of_int (2 ^ nat (bitlen n - 1)) \<le> real_of_int n"
    using lo by (simp only: of_int_le_iff)
  also note ns(1)
  finally have A: "(2::real) powi (bitlen n - 1) \<le> s"
    using b1 by (simp add: two_powi_nat)
  have "n + 1 \<le> 2 ^ nat (bitlen n)" using hi by simp
  then have "real_of_int (n + 1) \<le> real_of_int (2 ^ nat (bitlen n))"
    by (simp only: of_int_le_iff)
  with ns(2) have "s < real_of_int (2 ^ nat (bitlen n))" by linarith
  then have B: "s < (2::real) powi (bitlen n)"
    using b1 by (simp add: two_powi_nat)
  have "2 powi expo x = (2::real) powi (bitlen n - 1) / 2 powi 1074"
    unfolding e two_powi_diff [symmetric] by simp
  also have "\<dots> \<le> \<bar>x\<bar>"
    using A unfolding s by (simp only: divide_le_eq two_powi_pos if_True)
  finally show "2 powi expo x \<le> \<bar>x\<bar>" .
  have "2 powi (expo x + 1) = (2::real) powi (bitlen n) / 2 powi 1074"
    unfolding e two_powi_diff [symmetric] by simp
  moreover have "\<bar>x\<bar> < (2::real) powi (bitlen n) / 2 powi 1074"
    using B unfolding s by (simp only: less_divide_eq two_powi_pos if_True)
  ultimately show "\<bar>x\<bar> < 2 powi (expo x + 1)" by simp
qed

lemma expo_upper: "\<bar>x\<bar> < 2 powi (expo x + 1)"
proof (cases "2 powi (- 1022) \<le> \<bar>x\<bar>")
  case True
  then show ?thesis by (rule expo_bounds)
next
  case False
  then have "\<bar>x\<bar> < 2 powi (- 1022)" by simp
  moreover from this have "expo x = - 1022" by (rule expo_small)
  moreover have "(2::real) powi (- 1022) < 2 powi (- 1022 + 1)" by (rule two_powi_strict_mono) simp
  ultimately show ?thesis by simp
qed

lemma expo_eqI:
  assumes "- 1022 \<le> e" and "2 powi e \<le> \<bar>x\<bar>" and "\<bar>x\<bar> < 2 powi (e + 1)"
  shows "expo x = e"
proof -
  have "(2::real) powi (- 1022) \<le> 2 powi e" using assms(1) by (rule two_powi_mono)
  then have n: "2 powi (- 1022) \<le> \<bar>x\<bar>" using assms(2) by linarith
  from expo_bounds [OF n] assms
  have "(2::real) powi expo x < 2 powi (e + 1)" and "(2::real) powi e < 2 powi (expo x + 1)"
    by linarith+
  then show ?thesis by simp
qed

lemma expo_subnormalI:
  assumes "\<bar>x\<bar> < 2 powi (e + 1)" and "e = - 1022"
  shows "expo x = e"
proof (cases "2 powi (- 1022) \<le> \<bar>x\<bar>")
  case True
  then show ?thesis using assms by (intro expo_eqI) simp_all
next
  case False
  then show ?thesis using assms expo_small [of x] by simp
qed

lemma expo_minus [simp]: "expo (- x) = expo x"
  by (simp add: expo_def)

lemma expo_abs [simp]: "expo \<bar>x\<bar> = expo x"
  by (simp add: expo_def)

lemma expo_mono:
  assumes "\<bar>x\<bar> \<le> \<bar>y\<bar>"
  shows "expo x \<le> expo y"
proof (cases "2 powi (- 1022) \<le> \<bar>x\<bar>")
  case True
  then have y: "2 powi (- 1022) \<le> \<bar>y\<bar>" using assms by linarith
  from expo_bounds(1) [OF True] expo_bounds(2) [OF y] assms
  have "(2::real) powi expo x < 2 powi (expo y + 1)" by linarith
  then show ?thesis by simp
next
  case False
  then have "expo x = - 1022" using expo_small [of x] by simp
  then show ?thesis using expo_ge [of y] by simp
qed

subsection \<open>Rounding to the nearest binary64 number\<close>

lemma rhe_zero [simp]: "rhe 0 = 0"
  using rhe_of_int [of 0] by simp

lemma two_powi_not_less [simp]: "\<not> (2::real) powi k < 0"
  using two_powi_pos [of k] by linarith

lemma two_powi_not_le [simp]: "\<not> (2::real) powi k \<le> 0"
  using two_powi_pos [of k] by linarith

lemma two_powi_split: "a + b = c \<Longrightarrow> 2 powi a * 2 powi b = (2::real) powi c"
  using two_powi_add [of a b] by simp

lemma rnd_zero [simp]: "rnd 0 = 0"
  by (simp add: rnd_def)

lemma rnd_minus: "rnd (- x) = - rnd x"
  by (simp add: rnd_def rhe_minus)

lemma rnd_at:
  "expo x = e \<Longrightarrow> rnd x = of_int (rhe (x / 2 powi (e - 52))) * 2 powi (e - 52)"
  by (simp add: rnd_def)

lemma rnd_nonneg: "0 \<le> x \<Longrightarrow> 0 \<le> rnd x"
proof -
  assume "0 \<le> x"
  then have "of_int 0 \<le> x / 2 powi (expo x - 52)" by simp
  then have "0 \<le> rhe (x / 2 powi (expo x - 52))" by (rule rhe_ge)
  then show ?thesis by (simp add: rnd_def)
qed

lemma rnd_nonpos: "x \<le> 0 \<Longrightarrow> rnd x \<le> 0"
  using rnd_nonneg [of "- x"] by (simp add: rnd_minus)

text \<open>The quotient by the unit in the last place is below \<open>2 ^ 53\<close>.\<close>

lemma quotient_less:
  "\<bar>x\<bar> / 2 powi (expo x - 52) < 2 powi 53"
proof -
  have "\<bar>x\<bar> < 2 powi (expo x + 1)" by (rule expo_upper)
  also have "(2::real) powi (expo x + 1) = 2 powi 53 * 2 powi (expo x - 52)"
    by (rule two_powi_split [symmetric]) simp
  finally show ?thesis by (simp only: divide_less_eq two_powi_pos if_True)
qed

lemma quotient_ge:
  assumes "2 powi (- 1022) \<le> \<bar>x\<bar>"
  shows "2 powi 52 \<le> \<bar>x\<bar> / 2 powi (expo x - 52)"
proof -
  have "(2::real) powi 52 * 2 powi (expo x - 52) = 2 powi expo x"
    by (rule two_powi_split) simp
  also have "\<dots> \<le> \<bar>x\<bar>" using assms by (rule expo_bounds)
  finally show ?thesis by (simp only: le_divide_eq two_powi_pos if_True)
qed

lemma rnd_le_next:
  assumes "0 \<le> x"
  shows "rnd x \<le> 2 powi (expo x + 1)"
proof -
  have "x / 2 powi (expo x - 52) \<le> of_int (2 ^ 53)"
    using quotient_less [of x] assms by simp
  then have "rhe (x / 2 powi (expo x - 52)) \<le> 2 ^ 53" by (rule rhe_le)
  then have "real_of_int (rhe (x / 2 powi (expo x - 52))) \<le> real_of_int (2 ^ 53)"
    by (simp only: of_int_le_iff)
  then have "rnd x \<le> real_of_int (2 ^ 53) * 2 powi (expo x - 52)"
    unfolding rnd_def by (simp only: mult_le_cancel_right two_powi_pos) simp
  also have "real_of_int (2 ^ 53) * 2 powi (expo x - 52) = 2 powi 53 * 2 powi (expo x - 52)"
    by simp
  also have "\<dots> = 2 powi (expo x + 1)"
    by (rule two_powi_split) simp
  finally show ?thesis .
qed

lemma rnd_ge_binade:
  assumes "0 \<le> x" and "2 powi (- 1022) \<le> \<bar>x\<bar>"
  shows "2 powi expo x \<le> rnd x"
proof -
  have "of_int (2 ^ 52) \<le> x / 2 powi (expo x - 52)"
    using quotient_ge [OF assms(2)] assms(1) by simp
  then have "2 ^ 52 \<le> rhe (x / 2 powi (expo x - 52))" by (rule rhe_ge)
  then have "real_of_int (2 ^ 52) \<le> real_of_int (rhe (x / 2 powi (expo x - 52)))"
    by (simp only: of_int_le_iff)
  then have "real_of_int (2 ^ 52) * 2 powi (expo x - 52) \<le> rnd x"
    unfolding rnd_def by (simp only: mult_le_cancel_right two_powi_pos) simp
  moreover have "real_of_int (2 ^ 52) * 2 powi (expo x - 52) = 2 powi 52 * 2 powi (expo x - 52)"
    by simp
  moreover have "2 powi 52 * 2 powi (expo x - 52) = (2::real) powi expo x"
    by (rule two_powi_split) simp
  ultimately show ?thesis by simp
qed

lemma rnd_mono_nonneg:
  assumes "0 \<le> x" and "x \<le> y"
  shows "rnd x \<le> rnd y"
proof -
  have y: "0 \<le> y" using assms by simp
  have "expo x \<le> expo y" using assms by (intro expo_mono) simp
  then consider "expo x = expo y" | "expo x < expo y" by linarith
  then show ?thesis
  proof cases
    case 1
    have "x / 2 powi (expo y - 52) \<le> y / 2 powi (expo y - 52)"
      using assms(2) by (simp add: divide_right_mono)
    then have "rhe (x / 2 powi (expo y - 52)) \<le> rhe (y / 2 powi (expo y - 52))"
      by (rule rhe_mono)
    then have "real_of_int (rhe (x / 2 powi (expo y - 52))) \<le> real_of_int (rhe (y / 2 powi (expo y - 52)))"
      by (simp only: of_int_le_iff)
    then show ?thesis
      unfolding rnd_def 1 by (simp only: mult_le_cancel_right two_powi_pos) simp
  next
    case 2
    then have "- 1022 < expo y" using expo_ge [of x] by linarith
    then have "\<not> \<bar>y\<bar> < 2 powi (- 1022)" using expo_small [of y] by auto
    then have n: "2 powi (- 1022) \<le> \<bar>y\<bar>" by simp
    have "rnd x \<le> 2 powi (expo x + 1)" using assms(1) by (rule rnd_le_next)
    also have "(2::real) powi (expo x + 1) \<le> 2 powi expo y" using 2 by simp
    also have "\<dots> \<le> rnd y" using y n by (rule rnd_ge_binade)
    finally show ?thesis .
  qed
qed

lemma rnd_mono:
  assumes "x \<le> y"
  shows "rnd x \<le> rnd y"
proof -
  consider "0 \<le> x" | "x < 0" "0 \<le> y" | "y < 0" by linarith
  then show ?thesis
  proof cases
    case 1
    then show ?thesis using assms by (rule rnd_mono_nonneg)
  next
    case 2
    then have "rnd x \<le> 0" and "0 \<le> rnd y"
      using rnd_nonpos [of x] rnd_nonneg [of y] by simp_all
    then show ?thesis by simp
  next
    case 3
    then have "rnd (- y) \<le> rnd (- x)" using assms by (intro rnd_mono_nonneg) simp_all
    then show ?thesis by (simp add: rnd_minus)
  qed
qed

text \<open>A number with at most 53 significant bits and an exponent in range is binary64.\<close>

lemma rnd_grid:
  assumes "\<bar>m\<bar> < 2 ^ 53" and "- 1074 \<le> k"
  shows "rnd (of_int m * 2 powi k) = of_int m * 2 powi k"
proof -
  define x where "x = real_of_int m * 2 powi k"
  have le: "expo x - 52 \<le> k"
  proof (cases "2 powi (- 1022) \<le> \<bar>x\<bar>")
    case True
    have "\<bar>x\<bar> = real_of_int \<bar>m\<bar> * 2 powi k" by (simp add: x_def abs_mult)
    moreover have "real_of_int \<bar>m\<bar> < real_of_int (2 ^ 53)"
      using assms(1) by (simp only: of_int_less_iff)
    ultimately have "\<bar>x\<bar> < real_of_int (2 ^ 53) * 2 powi k"
      by (simp only: mult_less_cancel_right two_powi_pos) simp
    also have "real_of_int (2 ^ 53) * 2 powi k = 2 powi 53 * 2 powi k" by simp
    also have "\<dots> = 2 powi (53 + k)" by (rule two_powi_split) simp
    finally have "(2::real) powi expo x < 2 powi (53 + k)"
      using expo_bounds(1) [OF True] by linarith
    then show ?thesis by simp
  next
    case False
    then have "expo x = - 1022" using expo_small [of x] by simp
    then show ?thesis using assms(2) by simp
  qed
  define j where "j = nat (k - (expo x - 52))"
  have k: "k = (expo x - 52) + int j" using le by (simp add: j_def)
  have "x / 2 powi (expo x - 52) = real_of_int m * (2 powi k / 2 powi (expo x - 52))"
    by (simp add: x_def)
  also have "2 powi k / 2 powi (expo x - 52) = (2::real) powi (int j)"
    unfolding two_powi_diff [symmetric] using k by simp
  also have "real_of_int m * 2 powi (int j) = real_of_int (m * 2 ^ j)"
    by (simp add: power_int_of_nat del: of_int_mult)
       (simp)
  finally have q: "x / 2 powi (expo x - 52) = real_of_int (m * 2 ^ j)" .
  have "rnd x = real_of_int (m * 2 ^ j) * 2 powi (expo x - 52)"
    unfolding rnd_def q rhe_of_int ..
  also have "\<dots> = x"
    unfolding q [symmetric] by simp
  finally show ?thesis unfolding x_def .
qed

lemma rnd_two_powi: "- 1074 \<le> k \<Longrightarrow> rnd (2 powi k) = 2 powi k"
  using rnd_grid [of 1 k] by simp

lemma rnd_idem [simp]: "rnd (rnd x) = rnd x"
proof -
  define M where "M = rhe (x / 2 powi (expo x - 52))"
  have r: "rnd x = of_int M * 2 powi (expo x - 52)" by (simp add: rnd_def M_def)
  have k: "- 1074 \<le> expo x - 52" using expo_ge [of x] by simp
  have "\<bar>x / 2 powi (expo x - 52)\<bar> = \<bar>x\<bar> / 2 powi (expo x - 52)"
    by (simp add: abs_divide)
  then have "\<bar>x / 2 powi (expo x - 52)\<bar> < 2 powi 53"
    using quotient_less [of x] by simp
  then have "x / 2 powi (expo x - 52) < 2 powi 53"
    and "- (2 powi 53) < x / 2 powi (expo x - 52)" by linarith+
  then have "x / 2 powi (expo x - 52) \<le> of_int (2 ^ 53)"
    and "of_int (- (2 ^ 53)) \<le> x / 2 powi (expo x - 52)" by simp_all
  then have "M \<le> 2 ^ 53" and "- (2 ^ 53) \<le> M"
    unfolding M_def by (simp_all only: rhe_le rhe_ge)
  then consider "\<bar>M\<bar> < 2 ^ 53" | "M = 2 ^ 53" | "M = - (2 ^ 53)" by linarith
  then show ?thesis
  proof cases
    case 1
    then show ?thesis unfolding r using k by (rule rnd_grid)
  next
    case 2
    have "rnd x = 2 powi 53 * 2 powi (expo x - 52)" unfolding r 2 by simp
    also have "\<dots> = 2 powi (expo x + 1)" by (rule two_powi_split) simp
    finally have "rnd x = 2 powi (expo x + 1)" .
    moreover have "- 1074 \<le> expo x + 1" using k by simp
    ultimately show ?thesis by (simp add: rnd_two_powi)
  next
    case 3
    have "rnd x = - (2 powi 53 * 2 powi (expo x - 52))" unfolding r 3 by simp
    also have "2 powi 53 * 2 powi (expo x - 52) = (2::real) powi (expo x + 1)"
      by (rule two_powi_split) simp
    finally have "rnd x = - (2 powi (expo x + 1))" .
    moreover have "- 1074 \<le> expo x + 1" using k by simp
    ultimately show ?thesis by (simp add: rnd_two_powi rnd_minus)
  qed
qed

lemma rnd_enclosure:
  assumes "lo \<le> x" and "x \<le> hi" and "rnd lo = lo" and "rnd hi = hi"
  shows "lo \<le> rnd x \<and> rnd x \<le> hi"
  using rnd_mono [OF assms(1)] rnd_mono [OF assms(2)] assms(3,4) by simp

lemma rnd_error: "\<bar>rnd x - x\<bar> \<le> 2 powi (expo x - 52) / 2"
proof -
  define u where "u = (2::real) powi (expo x - 52)"
  have u: "0 < u" by (simp add: u_def)
  have "\<bar>real_of_int (rhe (x / u)) - x / u\<bar> \<le> 1 / 2" by (rule rhe_err)
  then have "\<bar>real_of_int (rhe (x / u)) - x / u\<bar> * u \<le> 1 / 2 * u"
    using u by (simp only: mult_le_cancel_right) simp
  moreover have "\<bar>real_of_int (rhe (x / u)) - x / u\<bar> * u = \<bar>rnd x - x\<bar>"
  proof -
    have "\<bar>real_of_int (rhe (x / u)) - x / u\<bar> * u = \<bar>(real_of_int (rhe (x / u)) - x / u) * u\<bar>"
      using u by (simp add: abs_mult)
    also have "(real_of_int (rhe (x / u)) - x / u) * u = rnd x - x"
      using u by (simp add: rnd_def u_def algebra_simps)
    finally show ?thesis .
  qed
  ultimately have "\<bar>rnd x - x\<bar> \<le> 1 / 2 * u" by simp
  then show ?thesis by (simp add: u_def)
qed

subsection \<open>Rounding with overflow\<close>

lemma rnd_abs: "\<bar>rnd x\<bar> = rnd \<bar>x\<bar>"
proof (cases "0 \<le> x")
  case True
  then show ?thesis using rnd_nonneg [of x] by simp
next
  case False
  then have "x \<le> 0" by simp
  then have "rnd x \<le> 0" by (rule rnd_nonpos)
  then show ?thesis using False by (simp add: rnd_minus)
qed

lemma rnd_abs_le: "\<bar>rnd x\<bar> \<le> 2 powi (expo x + 1)"
  using rnd_le_next [of "\<bar>x\<bar>"] by (simp add: rnd_abs)

lemma fl_zero [simp]: "fl 0 = Fin 0"
  by (simp add: fl_def)

lemma two_1024: "(2::real) ^ 1024 = 2 powi 1024"
  by (simp only: power_int_numeral)

lemma fl_alt: "fl x = (if 2 powi 1024 \<le> \<bar>rnd x\<bar> then (if 0 < x then PInf else NInf) else Fin (rnd x))"
  unfolding fl_def two_1024 ..

lemma fl_finite:
  assumes "expo x \<le> 1022"
  shows "fl x = Fin (rnd x)"
proof -
  have "\<bar>rnd x\<bar> \<le> 2 powi (expo x + 1)" by (rule rnd_abs_le)
  also have "(2::real) powi (expo x + 1) \<le> 2 powi 1023" using assms by (intro two_powi_mono) simp
  also have "(2::real) powi 1023 < 2 powi 1024" by (rule two_powi_strict_mono) simp
  finally have "\<not> 2 powi 1024 \<le> \<bar>rnd x\<bar>" by (simp only: not_le)
  then show ?thesis unfolding fl_alt by (simp only: if_False)
qed

lemma fl_at:
  assumes "- 1022 \<le> e" and "e \<le> 1022" and "2 powi e \<le> \<bar>x\<bar>" and "\<bar>x\<bar> < 2 powi (e + 1)"
  shows "fl x = Fin (of_int (rhe (x / 2 powi (e - 52))) * 2 powi (e - 52))"
proof -
  have e: "expo x = e" using assms(1,3,4) by (rule expo_eqI)
  then show ?thesis using assms(2) by (simp add: fl_finite rnd_at)
qed

lemma fl_at_subnormal:
  assumes "\<bar>x\<bar> < 2 powi (- 1022)"
  shows "fl x = Fin (of_int (rhe (x / 2 powi (- 1074))) * 2 powi (- 1074))"
proof -
  have e: "expo x = - 1022" using assms by (rule expo_small)
  then show ?thesis by (simp add: fl_finite rnd_at)
qed

lemma fl_grid:
  assumes "\<bar>m\<bar> < 2 ^ 53" and "- 1074 \<le> k" and "k \<le> 971"
  shows "fl (of_int m * 2 powi k) = Fin (of_int m * 2 powi k)"
proof -
  define x where "x = real_of_int m * 2 powi k"
  have r: "rnd x = x" unfolding x_def using assms(1,2) by (rule rnd_grid)
  have "\<bar>x\<bar> = real_of_int \<bar>m\<bar> * 2 powi k" by (simp add: x_def abs_mult)
  moreover have "real_of_int \<bar>m\<bar> < real_of_int (2 ^ 53)"
    using assms(1) by (simp only: of_int_less_iff)
  ultimately have "\<bar>x\<bar> < real_of_int (2 ^ 53) * 2 powi k"
    by (simp only: mult_less_cancel_right two_powi_pos) simp
  also have "real_of_int (2 ^ 53) * 2 powi k = 2 powi 53 * 2 powi k" by simp
  also have "\<dots> = 2 powi (53 + k)" by (rule two_powi_split) simp
  also have "\<dots> \<le> 2 powi 1024" using assms(3) by (intro two_powi_mono) simp
  finally have "\<not> 2 powi 1024 \<le> \<bar>rnd x\<bar>" unfolding r by (simp only: not_le)
  then show ?thesis unfolding x_def [symmetric] fl_alt r by (simp only: if_False)
qed

lemma fl_int:
  assumes "\<bar>n\<bar> < 2 ^ 53"
  shows "fl (of_int n) = Fin (of_int n)"
  using fl_grid [OF assms, of 0] by simp

lemma fl_PInf:
  assumes "2 ^ 1024 \<le> x"
  shows "fl x = PInf"
proof -
  have x: "2 powi 1024 \<le> x" using assms unfolding two_1024 .
  then have "rnd (2 powi 1024) \<le> rnd x" by (rule rnd_mono)
  moreover have "rnd (2 powi 1024) = 2 powi 1024" by (rule rnd_two_powi) simp
  ultimately have "2 powi 1024 \<le> rnd x" by (simp only:)
  moreover have p: "(0::real) < 2 powi 1024" by (rule two_powi_pos)
  ultimately have "2 powi 1024 \<le> \<bar>rnd x\<bar>" by linarith
  moreover have "0 < x" using x p by linarith
  ultimately show ?thesis unfolding fl_alt by (simp only: if_True)
qed

lemma fl_NInf:
  assumes "x \<le> - (2 ^ 1024)"
  shows "fl x = NInf"
proof -
  have x: "x \<le> - (2 powi 1024)" using assms unfolding two_1024 .
  then have "rnd x \<le> rnd (- (2 powi 1024))" by (rule rnd_mono)
  moreover have "rnd (2 powi 1024) = 2 powi 1024" by (rule rnd_two_powi) simp
  ultimately have "rnd x \<le> - (2 powi 1024)" by (simp only: rnd_minus)
  moreover have p: "(0::real) < 2 powi 1024" by (rule two_powi_pos)
  ultimately have "2 powi 1024 \<le> \<bar>rnd x\<bar>" by linarith
  moreover have "\<not> 0 < x" using x p by linarith
  ultimately show ?thesis unfolding fl_alt by (simp only: if_True if_False)
qed

lemma fl_cases:
  obtains y where "fl x = Fin y" "rnd y = y" "\<bar>y\<bar> < 2 ^ 1024" "y = rnd x"
  | "fl x = PInf" "0 < x" | "fl x = NInf" "x < 0"
proof (cases "2 ^ 1024 \<le> \<bar>rnd x\<bar>")
  case False
  then have "fl x = Fin (rnd x)" "rnd (rnd x) = rnd x" "\<bar>rnd x\<bar> < 2 ^ 1024"
    by (simp_all add: fl_def)
  then show ?thesis using that(1) by blast
next
  case True
  then have "x \<noteq> 0" by auto
  then show ?thesis using True that(2,3) by (cases "0 < x") (simp_all add: fl_def)
qed

lemma fl_Fin_iff: "fl x = Fin y \<longleftrightarrow> rnd x = y \<and> \<bar>y\<bar> < 2 ^ 1024"
  by (auto simp: fl_def)

lemma fl_idem: "fl x = Fin y \<Longrightarrow> fl y = Fin y"
  by (auto simp: fl_Fin_iff)

lemma val_fl [simp]: "val (fl x) = fl x"
  by (cases x rule: fl_cases) (simp_all add: fl_idem)

lemma val_val [simp]: "val (val n) = val n"
  by (cases n) simp_all

lemma fl_enclosure:
  assumes "lo \<le> x" and "x \<le> hi" and "fl lo = Fin lo" and "fl hi = Fin hi"
  obtains y where "fl x = Fin y" and "lo \<le> y" and "y \<le> hi"
proof -
  from assms(3,4) have l: "rnd lo = lo" "\<bar>lo\<bar> < 2 ^ 1024" and h: "rnd hi = hi" "\<bar>hi\<bar> < 2 ^ 1024"
    by (simp_all add: fl_Fin_iff)
  from rnd_enclosure [OF assms(1,2) l(1) h(1)]
  have b: "lo \<le> rnd x" "rnd x \<le> hi" by simp_all
  with l(2) h(2) have "\<bar>rnd x\<bar> < 2 ^ 1024" by linarith
  then have "fl x = Fin (rnd x)" by (simp add: fl_def)
  then show ?thesis using b that by blast
qed

subsection \<open>Evaluating the operators\<close>

lemma rhe_eqI:
  assumes "of_int m - 1 / 2 < y" and "y < of_int m + 1 / 2"
  shows "rhe y = m"
proof -
  have "\<bar>real_of_int (rhe y) - y\<bar> \<le> 1 / 2" by (rule rhe_err)
  with assms have "\<bar>real_of_int (rhe y) - real_of_int m\<bar> < 1" by linarith
  then have "\<bar>real_of_int (rhe y - m)\<bar> < 1" by simp
  then have "\<bar>rhe y - m\<bar> < 1" by linarith
  then show ?thesis by simp
qed

lemma rhe_tie:
  "rhe (of_int m + 1 / 2) = (if even m then m else m + 1)"
  using rhe_split [of "1 / 2" m] by simp

text \<open>Rounding a given real: the exponent and the significand are supplied.\<close>

lemma fl_evalI:
  assumes "- 1022 \<le> e" and "e \<le> 1022"
    and "2 powi e \<le> \<bar>x\<bar>" and "\<bar>x\<bar> < 2 powi (e + 1)"
    and "(2 * of_int m - 1) * 2 powi (e - 53) < x"
    and "x < (2 * of_int m + 1) * 2 powi (e - 53)"
    and "c = of_int m * 2 powi (e - 52)"
  shows "fl x = Fin c"
proof -
  have u: "(2::real) powi (e - 53) = 2 powi (e - 52) / 2"
    using two_powi_diff [of "e - 52" 1] by simp
  have "real_of_int m - 1 / 2 < x / 2 powi (e - 52)"
    using assms(5) unfolding u by (simp add: less_divide_eq algebra_simps)
  moreover have "x / 2 powi (e - 52) < real_of_int m + 1 / 2"
    using assms(6) unfolding u by (simp add: divide_less_eq algebra_simps)
  ultimately have "rhe (x / 2 powi (e - 52)) = m" by (rule rhe_eqI)
  then show ?thesis using fl_at [OF assms(1-4)] assms(7) by simp
qed

lemma fl_tieI:
  assumes "- 1022 \<le> e" and "e \<le> 1022"
    and "2 powi e \<le> \<bar>x\<bar>" and "\<bar>x\<bar> < 2 powi (e + 1)"
    and "x = (2 * of_int m + 1) * 2 powi (e - 53)"
    and "c = of_int (if even m then m else m + 1) * 2 powi (e - 52)"
  shows "fl x = Fin c"
proof -
  have u: "(2::real) powi (e - 53) = 2 powi (e - 52) / 2"
    using two_powi_diff [of "e - 52" 1] by simp
  have "x / 2 powi (e - 52) = real_of_int m + 1 / 2"
    unfolding assms(5) u by (simp add: field_simps)
  then have "rhe (x / 2 powi (e - 52)) = (if even m then m else m + 1)"
    by (simp only: rhe_tie)
  then show ?thesis using fl_at [OF assms(1-4)] assms(6) by simp
qed

text \<open>Rounding is monotone, also across an overflow.\<close>

lemma fl_mono:
  assumes "x \<le> y" and "fl x = Fin a" and "fl y = Fin b"
  shows "a \<le> b"
  using rnd_mono [OF assms(1)] assms(2,3) by (simp add: fl_Fin_iff)

lemma fl_between:
  assumes "fl lo = Fin a" and "fl hi = Fin b" and "lo \<le> x" and "x \<le> hi"
  obtains y where "fl x = Fin y" and "a \<le> y" and "y \<le> b"
proof -
  from assms(1,2) have a: "rnd lo = a" "\<bar>a\<bar> < 2 ^ 1024" and b: "rnd hi = b" "\<bar>b\<bar> < 2 ^ 1024"
    by (simp_all add: fl_Fin_iff)
  have "a \<le> rnd x" "rnd x \<le> b"
    using rnd_mono [OF assms(3)] rnd_mono [OF assms(4)] a(1) b(1) by simp_all
  moreover from this a(2) b(2) have "\<bar>rnd x\<bar> < 2 ^ 1024" by linarith
  then have "fl x = Fin (rnd x)" by (simp add: fl_def)
  ultimately show ?thesis using that by blast
qed

lemma fl_nonneg:
  assumes "0 \<le> x" and "fl x = Fin a"
  shows "0 \<le> a"
  using rnd_nonneg [OF assms(1)] assms(2) by (simp add: fl_Fin_iff)

lemma fl_nonpos:
  assumes "x \<le> 0" and "fl x = Fin a"
  shows "a \<le> 0"
  using rnd_nonpos [OF assms(1)] assms(2) by (simp add: fl_Fin_iff)

text \<open>A Number is its own value.\<close>

lemma val_idem_Fin: "val a = Fin x \<Longrightarrow> fl x = Fin x"
  by (cases a) (auto dest: fl_idem)

lemma val_js_add64 [simp]: "val (js_add64 a b) = js_add64 a b"
  by (simp add: js_add64_def)

lemma val_js_sub64 [simp]: "val (js_sub64 a b) = js_sub64 a b"
  by (simp add: js_sub64_def)

lemma val_js_mul64 [simp]: "val (js_mul64 a b) = js_mul64 a b"
  by (simp add: js_mul64_def)

lemma val_js_div64 [simp]: "val (js_div64 a b) = js_div64 a b"
  by (simp add: js_div64_def)

lemma val_Math_pow64 [simp]: "val (Math_pow64 a b) = Math_pow64 a b"
  by (simp add: Math_pow64_def)

text \<open>The operators on operands whose values are known.\<close>

lemma js_add64_Fin:
  "val a = Fin x \<Longrightarrow> val b = Fin y \<Longrightarrow> js_add64 a b = fl (x + y)"
  by (simp add: js_add64_def)

lemma js_sub64_Fin:
  "val a = Fin x \<Longrightarrow> val b = Fin y \<Longrightarrow> js_sub64 a b = fl (x - y)"
  by (simp add: js_sub64_def js_sub_def)

lemma js_mul64_Fin:
  "val a = Fin x \<Longrightarrow> val b = Fin y \<Longrightarrow> js_mul64 a b = fl (x * y)"
  by (simp add: js_mul64_def)

lemma js_div64_Fin:
  "val a = Fin x \<Longrightarrow> val b = Fin y \<Longrightarrow> y \<noteq> 0 \<Longrightarrow> js_div64 a b = fl (x / y)"
  by (simp add: js_div64_def)

lemma js_lt64_Fin:
  "val a = Fin x \<Longrightarrow> val b = Fin y \<Longrightarrow> js_lt64 a b = (x < y)"
  by (simp add: js_lt64_def)

lemma Math_floor64_Fin: "val a = Fin x \<Longrightarrow> Math_floor64 a = Fin (of_int \<lfloor>x\<rfloor>)"
  by (simp add: Math_floor64_def)

lemma Math_ceil64_Fin: "val a = Fin x \<Longrightarrow> Math_ceil64 a = Fin (of_int \<lceil>x\<rceil>)"
  by (simp add: Math_ceil64_def)

lemma Math_round64_Fin: "val a = Fin x \<Longrightarrow> Math_round64 a = Fin (of_int \<lfloor>x + 1 / 2\<rfloor>)"
  by (simp add: Math_round64_def)

lemma Math_min64_Fin:
  "val a = Fin x \<Longrightarrow> val b = Fin y \<Longrightarrow> Math_min64 a b = Fin (min x y)"
  by (simp add: Math_min64_def min_def)

lemma Math_abs64_Fin: "val a = Fin x \<Longrightarrow> Math_abs64 a = Fin \<bar>x\<bar>"
  by (simp add: Math_abs64_def)

lemma Math_pow64_nat:
  assumes "val a = Fin x" and "val b = Fin (of_nat n)" and "0 < n"
  shows "Math_pow64 a b = fl (x ^ n)"
proof -
  have "is_int (real n)" unfolding is_int_def by simp
  then show ?thesis using assms by (simp add: Math_pow64_def power_int_def zero_power)
qed

text \<open>Whole numbers below \<open>2 ^ 53\<close> are binary64 numbers.\<close>

lemma val_int: "\<bar>n\<bar> < 2 ^ 53 \<Longrightarrow> val (Fin (of_int n)) = Fin (of_int n)"
  by (simp add: fl_int)

lemma val_numeral [simp]: "numeral k < (2::int) ^ 53 \<Longrightarrow> val (Fin (numeral k)) = Fin (numeral k)"
  using val_int [of "numeral k"] by simp

lemma fl_numeral [simp]: "numeral k < (2::int) ^ 53 \<Longrightarrow> fl (numeral k) = Fin (numeral k)"
  using fl_int [of "numeral k"] by simp

lemma fl_neg_numeral [simp]:
  "numeral k < (2::int) ^ 53 \<Longrightarrow> fl (- numeral k) = Fin (- numeral k)"
  using fl_int [of "- numeral k"] by simp

lemma fl_one [simp]: "fl 1 = Fin 1"
  using fl_int [of 1] by simp

lemma fl_minus_one [simp]: "fl (- 1) = Fin (- 1)"
  using fl_int [of "- 1"] by simp

lemma val_0 [simp]: "val (Fin 0) = Fin 0"
  by simp

lemma val_1 [simp]: "val (Fin 1) = Fin 1"
  using val_int [of 1] by simp

subsection \<open>Ties\<close>

text \<open>Rounding to a neighbour with an even significand.\<close>

lemma two_powi_half: "(2::real) powi (k - 1) = 2 powi k / 2"
  using two_powi_diff [of k 1] by simp

lemma two_powi_quarter: "(2::real) powi (k - 2) = 2 powi k / 4"
  using two_powi_diff [of k 2] by simp

lemma rnd_tie_up:
  assumes m: "2 ^ 52 \<le> m" "m < 2 ^ 53" "even m" and k: "- 1074 \<le> k"
  shows "rnd ((of_int m + 1 / 2) * 2 powi k) = of_int m * 2 powi k"
proof -
  define y where "y = (real_of_int m + 1 / 2) * 2 powi k"
  have m': "(2::real) powi 52 \<le> of_int m" "real_of_int m + 1 \<le> 2 powi 53"
  proof -
    have "real_of_int (2 ^ 52) \<le> real_of_int m" using m(1) by (simp only: of_int_le_iff)
    then show "(2::real) powi 52 \<le> of_int m" by simp
    have "m + 1 \<le> 2 ^ 53" using m(2) by simp
    then have "real_of_int (m + 1) \<le> real_of_int (2 ^ 53)" by (simp only: of_int_le_iff)
    then show "real_of_int m + 1 \<le> 2 powi 53" by simp
  qed
  have "0 < real_of_int m + 1 / 2" using m'(1) two_powi_pos [of 52] by linarith
  then have pos: "0 < y" unfolding y_def by (intro mult_pos_pos) simp_all
  have "2 powi (k + 52) = (2::real) powi 52 * 2 powi k" by (rule two_powi_split [symmetric]) simp
  also have "\<dots> \<le> y" unfolding y_def using m'(1)
    by (intro mult_right_mono) simp_all
  finally have lo: "2 powi (k + 52) \<le> \<bar>y\<bar>" using pos by simp
  have "y < (real_of_int m + 1) * 2 powi k" unfolding y_def
    by (intro mult_strict_right_mono) simp_all
  also have "\<dots> \<le> 2 powi 53 * 2 powi k" using m'(2)
    by (intro mult_right_mono) simp_all
  also have "\<dots> = 2 powi (k + 52 + 1)" by (rule two_powi_split) simp
  finally have hi: "\<bar>y\<bar> < 2 powi (k + 52 + 1)" using pos by simp
  have e: "expo y = k + 52" using k lo hi by (intro expo_eqI) simp_all
  have "y / 2 powi (expo y - 52) = real_of_int m + 1 / 2"
    by (simp only: e) (simp add: y_def)
  then have "rhe (y / 2 powi (expo y - 52)) = m"
    using m(3) by (simp add: rhe_tie)
  then show ?thesis unfolding y_def [symmetric] by (simp add: rnd_def e)
qed

lemma rnd_tie_down:
  assumes m: "2 ^ 52 < m" "m < 2 ^ 53" "even m" and k: "- 1074 \<le> k"
  shows "rnd ((of_int m - 1 / 2) * 2 powi k) = of_int m * 2 powi k"
proof -
  define y where "y = (real_of_int m - 1 / 2) * 2 powi k"
  have m': "(2::real) powi 52 + 1 \<le> of_int m" "real_of_int m \<le> 2 powi 53"
  proof -
    have "2 ^ 52 + 1 \<le> m" using m(1) by simp
    then have "real_of_int (2 ^ 52 + 1) \<le> real_of_int m" by (simp only: of_int_le_iff)
    then show "(2::real) powi 52 + 1 \<le> of_int m" by simp
    have "real_of_int m \<le> real_of_int (2 ^ 53)" using m(2) by (simp only: of_int_le_iff)
    then show "real_of_int m \<le> 2 powi 53" by simp
  qed
  have h: "(2::real) powi 52 \<le> real_of_int m - 1 / 2" using m'(1) by linarith
  have "0 < real_of_int m - 1 / 2" using h two_powi_pos [of 52] by linarith
  then have pos: "0 < y" unfolding y_def by (intro mult_pos_pos) simp_all
  have "2 powi (k + 52) = (2::real) powi 52 * 2 powi k" by (rule two_powi_split [symmetric]) simp
  also have "\<dots> \<le> y" unfolding y_def using h
    by (intro mult_right_mono) simp_all
  finally have lo: "2 powi (k + 52) \<le> \<bar>y\<bar>" using pos by simp
  have "y < real_of_int m * 2 powi k" unfolding y_def
    by (intro mult_strict_right_mono) simp_all
  also have "\<dots> \<le> 2 powi 53 * 2 powi k" using m'(2)
    by (intro mult_right_mono) simp_all
  also have "\<dots> = 2 powi (k + 52 + 1)" by (rule two_powi_split) simp
  finally have hi: "\<bar>y\<bar> < 2 powi (k + 52 + 1)" using pos by simp
  have e: "expo y = k + 52" using k lo hi by (intro expo_eqI) simp_all
  have "y / 2 powi (expo y - 52) = real_of_int (m - 1) + 1 / 2"
    by (simp only: e) (simp add: y_def)
  then have "rhe (y / 2 powi (expo y - 52)) = m"
    using m(3) by (simp only: rhe_tie) simp
  then show ?thesis unfolding y_def [symmetric] by (simp add: rnd_def e)
qed

text \<open>Below a power of two the binary64 numbers are twice as dense.\<close>

lemma rnd_tie_below_power:
  assumes k: "- 1073 \<le> k"
  shows "rnd ((2 ^ 52 - 1 / 4) * 2 powi k) = 2 ^ 52 * 2 powi k"
proof -
  have eq: "(2 ^ 52 - 1 / 4) * 2 powi k = (real_of_int (2 ^ 53 - 1) + 1 / 2) * 2 powi (k - 1)"
    unfolding two_powi_half by simp
  define y where "y = (real_of_int (2 ^ 53 - 1) + 1 / 2) * 2 powi (k - 1)"
  have pos: "0 < y" unfolding y_def by (intro mult_pos_pos) simp_all
  have "(2::real) powi (k + 51) = 2 powi 52 * 2 powi (k - 1)" by (rule two_powi_split [symmetric]) simp
  also have "\<dots> \<le> y" unfolding y_def by (intro mult_right_mono) simp_all
  finally have lo: "2 powi (k + 51) \<le> \<bar>y\<bar>" using pos by simp
  have "y < 2 powi 53 * 2 powi (k - 1)" unfolding y_def
    by (intro mult_strict_right_mono) simp_all
  also have "\<dots> = 2 powi (k + 51 + 1)" by (rule two_powi_split) simp
  finally have hi: "\<bar>y\<bar> < 2 powi (k + 51 + 1)" using pos by simp
  have e: "expo y = k + 51" using k lo hi by (intro expo_eqI) simp_all
  have "y / 2 powi (expo y - 52) = real_of_int (2 ^ 53 - 1) + 1 / 2"
    by (simp only: e) (simp add: y_def)
  then have "rhe (y / 2 powi (expo y - 52)) = 2 ^ 53"
    by (simp only: rhe_tie) simp
  then have "rnd y = 2 ^ 53 * 2 powi (k - 1)" by (simp add: rnd_def e)
  also have "\<dots> = 2 ^ 52 * 2 powi k"
    unfolding two_powi_half by simp
  finally show ?thesis unfolding eq y_def .
qed

lemma rnd_near:
  assumes m: "2 ^ 52 \<le> m" "m < 2 ^ 53" "even m" and k: "- 1073 \<le> k"
    and lo: "of_int m * 2 powi k - 2 powi (k - 2) \<le> y
             \<or> 2 ^ 52 < m \<and> of_int m * 2 powi k - 2 powi (k - 1) \<le> y"
    and hi: "y \<le> of_int m * 2 powi k + 2 powi (k - 1)"
  shows "rnd y = of_int m * 2 powi k"
proof -
  define c where "c = real_of_int m * 2 powi k"
  have half: "(2::real) powi (k - 1) = 1 / 2 * 2 powi k" "(2::real) powi (k - 2) = 1 / 4 * 2 powi k"
    by (simp_all add: two_powi_half two_powi_quarter)
  have k': "- 1074 \<le> k" using k by simp
  have "y \<le> (real_of_int m + 1 / 2) * 2 powi k"
    using hi unfolding half by (simp add: algebra_simps)
  then have "rnd y \<le> rnd ((real_of_int m + 1 / 2) * 2 powi k)" by (rule rnd_mono)
  then have up: "rnd y \<le> c" unfolding c_def using rnd_tie_up [OF m k'] by simp
  have "c \<le> rnd y"
  proof (cases "2 ^ 52 < m")
    case True
    have q: "(2::real) powi (k - 2) \<le> 2 powi (k - 1)" by simp
    from lo q have "real_of_int m * 2 powi k - 2 powi (k - 1) \<le> y" by linarith
    then have "(real_of_int m - 1 / 2) * 2 powi k \<le> y"
      unfolding half by (simp add: algebra_simps)
    then have "rnd ((real_of_int m - 1 / 2) * 2 powi k) \<le> rnd y" by (rule rnd_mono)
    then show ?thesis unfolding c_def using rnd_tie_down [OF True m(2,3) k'] by simp
  next
    case False
    then have m52: "m = 2 ^ 52" using m(1) by simp
    from lo False have "real_of_int m * 2 powi k - 2 powi (k - 2) \<le> y" by simp
    then have "(2 ^ 52 - 1 / 4) * 2 powi k \<le> y"
      unfolding half m52 by (simp add: algebra_simps)
    then have "rnd ((2 ^ 52 - 1 / 4) * 2 powi k) \<le> rnd y" by (rule rnd_mono)
    then show ?thesis unfolding c_def m52 using rnd_tie_below_power [OF k] by simp
  qed
  with up show ?thesis unfolding c_def by simp
qed

text \<open>
  A term of \<open>n\<close> months is the Number nearest to \<open>n / 12\<close>; its product with 12 is
  \<open>n\<close> again.
\<close>

lemma months_product:
  fixes n :: nat
  assumes n0: "0 < n" and n32: "n < 2 ^ 32"
  shows "rnd (rnd (real n / 12) * 12) = real n"
proof -
  define x where "x = real n / 12"
  define e where "e = expo x"
  define u where "u = (2::real) powi (e - 52)"
  define M where "M = rhe (x / u)"
  have rx: "rnd x = of_int M * u" by (simp add: rnd_def M_def u_def e_def)
  have n1: "1 \<le> real n" using n0 by simp
  have nlt: "real n < 2 ^ 32"
  proof -
    have "real n < real (2 ^ 32)" using n32 by (simp only: of_nat_less_iff)
    then show ?thesis by simp
  qed
  have xpos: "0 < x" using n1 by (simp add: x_def)
  have x_lo: "2 powi (- 4) \<le> x"
  proof -
    have "(2::real) powi (- 4) = 1 / 16" by simp
    then show ?thesis using n1 by (simp add: x_def)
  qed
  have "(2::real) powi (- 1022) \<le> 2 powi (- 4)" by (rule two_powi_mono) simp
  then have normal: "2 powi (- 1022) \<le> \<bar>x\<bar>" using x_lo xpos by linarith
  have xb: "2 powi e \<le> x" "x < 2 powi (e + 1)"
    using expo_bounds [OF normal] xpos by (simp_all add: e_def)
  have "(2::real) powi (- 4) < 2 powi (e + 1)" using x_lo xb(2) by linarith
  then have "- 4 < e + 1" by (simp only: two_powi_less_iff)
  then have e_lo: "- 4 \<le> e" by simp
  have "x < 2 powi 29"
  proof -
    have "(2::real) powi 29 = 2 ^ 32 / 8" by simp
    then show ?thesis using nlt by (simp add: x_def)
  qed
  then have "(2::real) powi e < 2 powi 29" using xb(1) by linarith
  then have "e < 29" by (simp only: two_powi_less_iff)
  then have e_hi: "e \<le> 28" by simp
  text \<open>The quotient is a third of a whole number.\<close>
  define N where "N = int n * 2 ^ nat (50 - e)"
  have Nr: "real_of_int N = real n * 2 powi (50 - e)"
    using e_hi by (simp add: N_def two_powi_nat)
  have u_inv: "1 / u = 4 * 2 powi (50 - e)"
  proof -
    have "1 / u = 2 powi (0 - (e - 52))" unfolding u_def two_powi_diff by simp
    also have "0 - (e - 52) = 2 + (50 - e)" by simp
    also have "(2::real) powi (2 + (50 - e)) = 2 powi 2 * 2 powi (50 - e)" by (rule two_powi_add)
    finally show ?thesis by simp
  qed
  have q: "x / u = real_of_int N / 3"
  proof -
    have "x / u = x * (1 / u)" by simp
    also have "\<dots> = real n / 12 * (4 * 2 powi (50 - e))" unfolding u_inv x_def ..
    also have "\<dots> = real_of_int N / 3" unfolding Nr by simp
    finally show ?thesis .
  qed
  have "\<bar>real_of_int M - real_of_int N / 3\<bar> \<le> 1 / 2"
    unfolding M_def q [symmetric] by (rule rhe_err)
  then have "\<bar>3 * real_of_int M - real_of_int N\<bar> \<le> 3 / 2" by linarith
  then have "\<bar>real_of_int (3 * M - N)\<bar> < 2" by simp
  then have "\<bar>3 * M - N\<bar> < 2" by linarith
  then have d: "\<bar>3 * M - N\<bar> \<le> 1" by simp
  define w where "w = (2::real) powi (e - 50)"
  have wpos: "0 < w" by (simp add: w_def)
  have w4: "w = 4 * u"
  proof -
    have "(2::real) powi (e - 50) = 2 powi 2 * 2 powi (e - 52)" by (rule two_powi_split [symmetric]) simp
    then show ?thesis by (simp add: w_def u_def)
  qed
  have Nw: "real_of_int N * w = real n"
  proof -
    have "2 powi (50 - e) * (2::real) powi (e - 50) = 2 powi 0" by (rule two_powi_split) simp
    then show ?thesis unfolding Nr w_def by simp
  qed
  define y where "y = rnd x * 12"
  have y: "y = real n + real_of_int (3 * M - N) * w"
  proof -
    have "y = real_of_int (3 * M) * w" unfolding y_def rx w4 by simp
    also have "\<dots> = real_of_int N * w + real_of_int (3 * M - N) * w"
      by (simp add: algebra_simps)
    finally show ?thesis unfolding Nw .
  qed
  have "\<bar>real_of_int (3 * M - N)\<bar> \<le> 1" using d by linarith
  then have "\<bar>real_of_int (3 * M - N) * w\<bar> \<le> 1 * w"
    unfolding abs_mult using wpos by (intro mult_mono) simp_all
  then have yb: "real n - w \<le> y" "y \<le> real n + w" unfolding y by linarith+
  text \<open>The exponent of \<open>n\<close> is 3 or 4 above that of \<open>n / 12\<close>.\<close>
  define en where "en = expo (real n)"
  have "(2::real) powi (- 1022) \<le> 2 powi 0" by (rule two_powi_mono) simp
  then have normal_n: "2 powi (- 1022) \<le> \<bar>real n\<bar>" using n1 by simp
  have nb: "2 powi en \<le> real n" "real n < 2 powi (en + 1)"
    using expo_bounds [OF normal_n] by (simp_all add: en_def)
  have n12: "12 * 2 powi e \<le> real n" "real n < 24 * 2 powi e"
  proof -
    show "12 * 2 powi e \<le> real n" using xb(1) by (simp add: x_def)
    have "(2::real) powi (e + 1) = 2 * 2 powi e" using two_powi_add [of e 1] by simp
    then show "real n < 24 * 2 powi e" using xb(2) by (simp add: x_def)
  qed
  have p3: "(2::real) powi (e + 3) = 8 * 2 powi e" using two_powi_add [of e 3] by simp
  have p5: "(2::real) powi (e + 5) = 32 * 2 powi e" using two_powi_add [of e 5] by simp
  have epos: "(0::real) < 2 powi e" by simp
  have above: "2 powi (e + 3) < real n" unfolding p3 using n12(1) epos by linarith
  then have "(2::real) powi (e + 3) < 2 powi (en + 1)" using nb(2) by linarith
  then have "e + 3 < en + 1" by (simp only: two_powi_less_iff)
  then have en_lo: "e + 3 \<le> en" by simp
  have "real n < 2 powi (e + 5)" unfolding p5 using n12(2) epos by linarith
  then have "(2::real) powi en < 2 powi (e + 5)" using nb(1) by linarith
  then have "en < e + 5" by (simp only: two_powi_less_iff)
  then have en_hi: "en \<le> e + 4" by simp
  have "(2::real) ^ 32 = 2 powi 32" by (simp only: power_int_numeral)
  then have "(2::real) powi en < 2 powi 32" using nb(1) nlt by linarith
  then have "en < 32" by (simp only: two_powi_less_iff)
  then have en31: "en \<le> 31" by simp
  text \<open>The significand of \<open>n\<close> is even.\<close>
  define k where "k = en - 52"
  define m where "m = int n * 2 ^ nat (52 - en)"
  have mr: "real_of_int m = real n * 2 powi (52 - en)"
    using en31 by (simp add: m_def two_powi_nat)
  have c: "real_of_int m * 2 powi k = real n"
  proof -
    have "2 powi (52 - en) * (2::real) powi (en - 52) = 2 powi 0" by (rule two_powi_split) simp
    then show ?thesis unfolding mr k_def by simp
  qed
  have "0 < nat (52 - en)" using en31 by simp
  then have ev: "even m" unfolding m_def by simp
  have "(2::real) powi 52 = 2 powi en * 2 powi (52 - en)" by (rule two_powi_split [symmetric]) simp
  also have "\<dots> \<le> real n * 2 powi (52 - en)" using nb(1) by (intro mult_right_mono) simp_all
  finally have "real_of_int (2 ^ 52) \<le> real_of_int m" unfolding mr by simp
  then have m_lo: "2 ^ 52 \<le> m" by (simp only: of_int_le_iff)
  have "real n * 2 powi (52 - en) < 2 powi (en + 1) * 2 powi (52 - en)"
    using nb(2) by (intro mult_strict_right_mono) simp_all
  also have "\<dots> = (2::real) powi 53" by (rule two_powi_split) simp
  finally have "real_of_int m < real_of_int (2 ^ 53)" unfolding mr by simp
  then have m_hi: "m < 2 ^ 53" by (simp only: of_int_less_iff)
  have k1073: "- 1073 \<le> k" using en_lo e_lo by (simp add: k_def)
  have "w \<le> 2 powi (k - 1)" unfolding w_def k_def using en_lo by (intro two_powi_mono) simp
  then have hi: "y \<le> real_of_int m * 2 powi k + 2 powi (k - 1)" unfolding c using yb(2) by linarith
  have lo: "real_of_int m * 2 powi k - 2 powi (k - 2) \<le> y
             \<or> 2 ^ 52 < m \<and> real_of_int m * 2 powi k - 2 powi (k - 1) \<le> y"
  proof (cases "en = e + 4")
    case True
    then have "w = 2 powi (k - 2)" by (simp add: w_def k_def)
    then show ?thesis unfolding c using yb(1) by simp
  next
    case False
    then have en3: "en = e + 3" using en_lo en_hi by simp
    then have "w = 2 powi (k - 1)" by (simp add: w_def k_def)
    then have 1: "real_of_int m * 2 powi k - 2 powi (k - 1) \<le> y" unfolding c using yb(1) by simp
    have "(2::real) powi 52 = 2 powi en * 2 powi (52 - en)" by (rule two_powi_split [symmetric]) simp
    also have "\<dots> < real n * 2 powi (52 - en)"
      using above unfolding en3 by (intro mult_strict_right_mono) simp_all
    finally have "real_of_int (2 ^ 52) < real_of_int m" unfolding mr by simp
    then have "2 ^ 52 < m" by (simp only: of_int_less_iff)
    with 1 show ?thesis by simp
  qed
  have "rnd y = real_of_int m * 2 powi k"
    using m_lo m_hi ev k1073 lo hi by (rule rnd_near)
  then show ?thesis unfolding c y_def x_def .
qed

subsection \<open>Whole numbers\<close>

text \<open>A binary64 number from \<open>2 ^ 52\<close> on is a whole number.\<close>

lemma expo_ge_52:
  assumes "2 ^ 52 \<le> \<bar>x\<bar>"
  shows "52 \<le> expo x"
proof -
  have a: "(2::real) ^ 52 = 2 powi 52" by (simp only: power_int_numeral)
  have "(2::real) powi (- 1022) \<le> 2 powi 52" by (rule two_powi_mono) simp
  then have n: "2 powi (- 1022) \<le> \<bar>x\<bar>" using assms a by linarith
  have "(2::real) powi 52 < 2 powi (expo x + 1)"
    using expo_bounds(2) [OF n] assms a by linarith
  then have "52 < expo x + 1" by (simp only: two_powi_less_iff)
  then show ?thesis by simp
qed

lemma rnd_large_int:
  assumes "rnd x = x" and "2 ^ 52 \<le> \<bar>x\<bar>"
  shows "of_int \<lfloor>x\<rfloor> = x"
proof -
  have e: "0 \<le> expo x - 52" using expo_ge_52 [OF assms(2)] by simp
  have "x = of_int (rhe (x / 2 powi (expo x - 52))) * 2 powi (expo x - 52)"
    using assms(1) by (simp add: rnd_def)
  also have "\<dots> = of_int (rhe (x / 2 powi (expo x - 52)) * 2 ^ nat (expo x - 52))"
    using e by (simp add: two_powi_nat)
  finally have "x = of_int (rhe (x / 2 powi (expo x - 52)) * 2 ^ nat (expo x - 52))" .
  then obtain j :: int where "x = of_int j" ..
  then show ?thesis by simp
qed

lemma fl_floor:
  assumes "fl x = Fin x"
  shows "fl (of_int \<lfloor>x\<rfloor>) = Fin (of_int \<lfloor>x\<rfloor>)"
proof (cases "2 ^ 52 \<le> \<bar>x\<bar>")
  case True
  from assms have "rnd x = x" by (simp add: fl_Fin_iff)
  then have "of_int \<lfloor>x\<rfloor> = x" using True by (rule rnd_large_int)
  then show ?thesis using assms by (simp only:)
next
  case False
  then have "\<bar>x\<bar> < 2 ^ 52" by simp
  then have "\<bar>x\<bar> < 4503599627370496" by simp
  then have "\<bar>\<lfloor>x\<rfloor>\<bar> < 9007199254740992" by linarith
  then have "\<bar>\<lfloor>x\<rfloor>\<bar> < 2 ^ 53" by simp
  then show ?thesis by (rule fl_int)
qed

lemma fl_ceiling:
  assumes "fl x = Fin x"
  shows "fl (of_int \<lceil>x\<rceil>) = Fin (of_int \<lceil>x\<rceil>)"
proof (cases "2 ^ 52 \<le> \<bar>x\<bar>")
  case True
  from assms have "rnd x = x" by (simp add: fl_Fin_iff)
  then have "of_int \<lfloor>x\<rfloor> = x" using True by (rule rnd_large_int)
  then have "of_int \<lceil>x\<rceil> = x" by (metis ceiling_of_int)
  then show ?thesis using assms by (simp only:)
next
  case False
  then have "\<bar>x\<bar> < 2 ^ 52" by simp
  then have "\<bar>x\<bar> < 4503599627370496" by simp
  then have "\<bar>\<lceil>x\<rceil>\<bar> < 9007199254740992" by linarith
  then have "\<bar>\<lceil>x\<rceil>\<bar> < 2 ^ 53" by simp
  then show ?thesis by (rule fl_int)
qed

lemma fl_round:
  assumes "fl x = Fin x"
  shows "fl (of_int \<lfloor>x + 1 / 2\<rfloor>) = Fin (of_int \<lfloor>x + 1 / 2\<rfloor>)"
proof (cases "2 ^ 52 \<le> \<bar>x\<bar>")
  case True
  from assms have "rnd x = x" by (simp add: fl_Fin_iff)
  then have "of_int \<lfloor>x\<rfloor> = x" using True by (rule rnd_large_int)
  then obtain j :: int where j: "x = of_int j" by metis
  have "\<lfloor>real_of_int j + 1 / 2\<rfloor> = j" by linarith
  then have "of_int \<lfloor>x + 1 / 2\<rfloor> = x" unfolding j by simp
  then show ?thesis using assms by (simp only:)
next
  case False
  then have "\<bar>x\<bar> < 4503599627370496" by simp
  then have "\<bar>\<lfloor>x + 1 / 2\<rfloor>\<bar> < 9007199254740992" by linarith
  then have "\<bar>\<lfloor>x + 1 / 2\<rfloor>\<bar> < 2 ^ 53" by simp
  then show ?thesis by (rule fl_int)
qed

section \<open>The length of the schedule\<close>

lemma length_plan_entries64: "length (plan_entries64 mr b pf qf d i k r) = k"
  by (induction k arbitrary: i r) (simp_all add: Let_def split: prod.split)

lemma plan_cases64:
  "paymentPlanFromToday64 loanAmount rate period pf qf today =
     (if 2 ^ 32 - 1 < ToLength (js_mul64 period (Fin 12)) then Inl RangeError
      else Inr (plan_entries64 (js_div64 rate (Fin 12)) (amortization64 loanAmount rate period)
                  (fees_or_default pf) (fees_or_default qf) today 0
                  (ToLength (js_mul64 period (Fin 12))) loanAmount))"
  by (simp add: paymentPlanFromToday64_def Let_def)

lemma ToLength_below:
  assumes "m < 2 ^ 32"
  shows "ToLength (Fin m) = nat \<lfloor>m\<rfloor>" and "\<not> 2 ^ 32 - 1 < ToLength (Fin m)"
proof -
  have "\<lfloor>m\<rfloor> < 4294967296" using assms by (simp add: floor_less_iff)
  then have "nat \<lfloor>m\<rfloor> < 4294967296" by linarith
  then have b: "nat \<lfloor>m\<rfloor> < 2 ^ 32" by simp
  have "(2::nat) ^ 32 \<le> 2 ^ 53 - 1" by simp
  with b have c: "nat \<lfloor>m\<rfloor> \<le> 2 ^ 53 - 1" by linarith
  show "ToLength (Fin m) = nat \<lfloor>m\<rfloor>"
  proof (cases "m \<le> 0")
    case True
    then have "\<lfloor>m\<rfloor> \<le> 0" by (simp add: floor_le_iff)
    with True show ?thesis by simp
  next
    case False
    with c show ?thesis by (simp add: min_def)
  qed
  with b show "\<not> 2 ^ 32 - 1 < ToLength (Fin m)" by simp
qed

lemma ToLength_above:
  assumes "2 ^ 32 \<le> m"
  shows "2 ^ 32 - 1 < ToLength (Fin m)"
proof -
  have "4294967296 \<le> \<lfloor>m\<rfloor>" using assms by (simp add: le_floor_iff)
  then have "4294967296 \<le> nat \<lfloor>m\<rfloor>" by linarith
  then have "(2::nat) ^ 32 \<le> nat \<lfloor>m\<rfloor>" by simp
  moreover have "(0::real) < 2 ^ 32" by simp
  then have "\<not> m \<le> 0" using assms by linarith
  ultimately show ?thesis by (simp add: min_def)
qed

lemma plan_length64:
  assumes "js_mul64 period (Fin 12) = Fin m" and "m < 2 ^ 32"
  shows "\<exists>es. paymentPlanFromToday64 loanAmount rate period pf qf today = Inr es
              \<and> length es = nat \<lfloor>m\<rfloor>"
  using ToLength_below [OF assms(2)] assms(1)
  by (simp add: plan_cases64 length_plan_entries64 del: ToLength.simps)

lemma js_mul64_months:
  fixes n :: nat
  assumes "n < 2 ^ 32"
  shows "js_mul64 (Fin (real n / 12)) (Fin 12) = Fin (real n)"
proof (cases "n = 0")
  case True
  then show ?thesis by (simp add: js_mul64_def)
next
  case False
  then have n0: "0 < n" by simp
  define x where "x = real n / 12"
  have nlt: "real n < 2 ^ 32"
  proof -
    have "real n < real (2 ^ 32)" using assms by (simp only: of_nat_less_iff)
    then show ?thesis by simp
  qed
  have x: "0 \<le> x" "x \<le> 2 powi 32" using nlt by (simp_all add: x_def)
  have "rnd x \<le> rnd (2 powi 32)" using x(2) by (rule rnd_mono)
  moreover have "rnd (2 powi 32) = 2 powi 32" by (rule rnd_two_powi) simp
  moreover have "0 \<le> rnd x" using x(1) by (rule rnd_nonneg)
  moreover have "(2::real) powi 32 < 2 powi 1024" by (rule two_powi_strict_mono) simp
  ultimately have "\<not> 2 powi 1024 \<le> \<bar>rnd x\<bar>" by linarith
  then have fx: "fl x = Fin (rnd x)" unfolding fl_alt by (simp only: if_False)
  have r: "rnd (rnd x * 12) = real n" unfolding x_def using n0 assms by (rule months_product)
  have "(2::real) ^ 32 < 2 ^ 1024" by simp
  then have "\<bar>real n\<bar> < 2 ^ 1024" using nlt by simp
  then have "fl (rnd x * 12) = Fin (real n)" using r by (simp add: fl_Fin_iff)
  then show ?thesis unfolding x_def [symmetric] by (simp add: js_mul64_def fx)
qed

lemma plan_months64:
  fixes n :: nat
  assumes "n < 2 ^ 32"
  shows "\<exists>es. paymentPlanFromToday64 loanAmount rate (Fin (real n / 12)) pf qf today = Inr es
              \<and> length es = n"
proof -
  have "real n < real (2 ^ 32)" using assms by (simp only: of_nat_less_iff)
  then have "real n < 2 ^ 32" by simp
  from plan_length64 [OF js_mul64_months [OF assms] this] show ?thesis by simp
qed

lemma fl_tenth: "fl (1 / 10) = Fin (3602879701896397 / 36028797018963968)"
  by (rule fl_evalI [where e = "- 4" and m = 7205759403792794]) simp_all

lemma js_mul64_tenth:
  "js_mul64 (Fin (1 / 10)) (Fin 12) = Fin (5404319552844596 / 4503599627370496)"
proof -
  have "fl (3602879701896397 / 36028797018963968 * 12) = Fin (5404319552844596 / 4503599627370496)"
    by (rule fl_tieI [where e = 0 and m = 5404319552844595]) simp_all
  then show ?thesis by (simp add: js_mul64_def fl_tenth)
qed

section \<open>Fee lists on binary64 numbers\<close>

lemmas parse_eval64 =
  parseFloat_string_def str_unsigned_decimal_def is_digit_def is_space_def digits_val_def
  digit_val_def

lemma sumArray64_skips:
  "\<not> isNumber64 e \<Longrightarrow> sumArray64 (xs @ e # ys) = sumArray64 (xs @ ys)"
  by (simp add: sumArray64_def)

lemma sumArray64_snoc:
  "isNumber64 e \<Longrightarrow> sumArray64 (xs @ [e]) = js_add64 (sumArray64 xs) (parseFloat64 e)"
  by (simp add: sumArray64_def)

lemma sumArray64_snoc_Number:
  assumes "fl x = Fin y"
  shows "sumArray64 (xs @ [JNumber (Fin x)]) = js_add64 (sumArray64 xs) (Fin y)"
proof -
  have "parseFloat64 (JNumber (Fin x)) = Fin y" using assms by (simp add: parseFloat64_def)
  moreover from this have "isNumber64 (JNumber (Fin x))" by (simp add: isNumber64_def)
  ultimately show ?thesis by (simp add: sumArray64_snoc)
qed

lemma not_numbers64:
  "\<not> isNumber64 JUndefined" "\<not> isNumber64 JNull" "\<not> isNumber64 (JBoolean b)"
  "\<not> isNumber64 (JNumber NaN)" "\<not> isNumber64 (JNumber PInf)" "\<not> isNumber64 (JNumber NInf)"
  "\<not> isNumber64 (JString [])" "\<not> isNumber64 (JString ''ten'')"
  by (simp_all add: isNumber64_def parseFloat64_def parse_eval64)

text \<open>A sum of whole numbers is exact as long as it stays below \<open>2 ^ 53\<close>.\<close>

lemma foldl_whole:
  assumes "\<bar>a\<bar> + (\<Sum>k\<leftarrow>ks. \<bar>k\<bar>) < 2 ^ 53"
  shows "foldl (\<lambda>acc e. js_add64 acc (parseFloat64 e)) (Fin (of_int a))
           (filter isNumber64 (map (\<lambda>k. JNumber (Fin (of_int k))) ks))
         = Fin (of_int (a + sum_list ks))"
  using assms
proof (induction ks arbitrary: a)
  case Nil
  then show ?case by simp
next
  case (Cons k ks)
  have k: "\<bar>k\<bar> < 2 ^ 53" and a: "\<bar>a\<bar> < 2 ^ 53" and ak: "\<bar>a + k\<bar> < 2 ^ 53"
    and rest: "\<bar>a + k\<bar> + (\<Sum>k\<leftarrow>ks. \<bar>k\<bar>) < 2 ^ 53"
  proof -
    have "0 \<le> (\<Sum>k\<leftarrow>ks. \<bar>k\<bar>)" by (rule sum_list_nonneg) auto
    with Cons.prems show "\<bar>k\<bar> < 2 ^ 53" "\<bar>a\<bar> < 2 ^ 53" "\<bar>a + k\<bar> < 2 ^ 53"
      "\<bar>a + k\<bar> + (\<Sum>k\<leftarrow>ks. \<bar>k\<bar>) < 2 ^ 53" by simp_all
  qed
  have pk: "parseFloat64 (JNumber (Fin (of_int k))) = Fin (of_int k)"
    using k by (simp add: parseFloat64_def fl_int)
  then have nk: "isNumber64 (JNumber (Fin (of_int k)))" by (simp add: isNumber64_def)
  have "fl (real_of_int (a + k)) = Fin (of_int (a + k))" using ak by (rule fl_int)
  then have "js_add64 (Fin (of_int a)) (Fin (of_int k)) = Fin (of_int (a + k))"
    using a k by (simp add: js_add64_def fl_int)
  then show ?case using Cons.IH [OF rest] pk nk by (simp add: add.assoc)
qed

lemma sumArray64_whole:
  assumes "(\<Sum>k\<leftarrow>ks. \<bar>k\<bar>) < 2 ^ 53"
  shows "sumArray64 (map (\<lambda>k. JNumber (Fin (of_int k))) ks) = Fin (of_int (sum_list ks))"
  using foldl_whole [of 0 ks] assms by (simp add: sumArray64_def)

lemma sumArray64_dirty:
  "sumArray64 [JNumber (Fin 1), JUndefined, JNumber (Fin 2), JNumber (Fin 3), JUndefined,
               JNumber (Fin 4)] = Fin 10"
  by (simp add: sumArray64_def isNumber64_def parseFloat64_def js_add64_def parse_eval64)

lemma fl_three_halves: "fl (3 / 2) = Fin (3 / 2)"
  by (rule fl_evalI [where e = 0 and m = 6755399441055744]) simp_all

lemma fl_half: "fl (1 / 2) = Fin (1 / 2)"
  by (rule fl_evalI [where e = "- 1" and m = 4503599627370496]) simp_all

lemma fl_quarter: "fl (1 / 4) = Fin (1 / 4)"
  by (rule fl_evalI [where e = "- 2" and m = 4503599627370496]) simp_all

lemma fl_fifth: "fl (1 / 5) = Fin (3602879701896397 / 18014398509481984)"
  by (rule fl_evalI [where e = "- 3" and m = 7205759403792794]) simp_all

lemma fl_tenth_value: "fl (1 / 10) = Fin (3602879701896397 / 36028797018963968)"
  by (rule fl_evalI [where e = "- 4" and m = 7205759403792794]) simp_all

lemma parseFloat64_strings:
  "parseFloat64 (JString ''1.5'') = Fin 1.5"
  "parseFloat64 (JString ''-10'') = Fin (- 10)"
  "parseFloat64 (JString ''+3'') = Fin 3"
  "parseFloat64 (JString ''1e3'') = Fin 1000"
  "parseFloat64 (JString ''2.5e-1'') = Fin 0.25"
  "parseFloat64 (JString ''.5'') = Fin 0.5"
  "parseFloat64 (JString ''5.'') = Fin 5"
  "parseFloat64 (JString ''1e'') = Fin 1"
  "parseFloat64 (JString ''  7'') = Fin 7"
  "parseFloat64 (JString [CHR 0xA0, CHR ''5'']) = Fin 5"
  "parseFloat64 (JString ''12abc'') = Fin 12"
  "parseFloat64 (JString ''abc12'') = NaN"
  "parseFloat64 (JString ''Infinity'') = PInf"
  "parseFloat64 (JString ''-Infinity'') = NInf"
  by (simp_all add: parseFloat64_def parse_eval64 fl_three_halves fl_half fl_quarter)

lemma parseFloat64_overflow: "parseFloat64 (JString ''1e309'') = PInf"
proof -
  have "fl (10 ^ 309) = PInf" by (rule fl_PInf) simp
  then show ?thesis by (simp add: parseFloat64_def parse_eval64)
qed

lemma sumArray64_rounds:
  "sumArray64 [JNumber (Fin 0.1), JNumber (Fin 0.2)] = Fin (1351079888211149 / 4503599627370496)"
proof -
  have "fl (3602879701896397 / 36028797018963968 + 3602879701896397 / 18014398509481984)
          = Fin (1351079888211149 / 4503599627370496)"
    by (rule fl_tieI [where e = "- 2" and m = 5404319552844595]) simp_all
  then show ?thesis
    by (simp add: sumArray64_def isNumber64_def parseFloat64_def js_add64_def fl_tenth_value fl_fifth
          fl_idem [OF fl_tenth_value] fl_idem [OF fl_fifth])
qed

section \<open>The schedule on binary64 numbers\<close>

text \<open>
  One callback of the schedule on a whole remainder \<open>r\<close> between 0 and the loan amount
  \<open>L\<close>, when the payment \<open>b\<close> covers the interest of the first month: the down payment
  is a whole number between 0 and \<open>r\<close>, and the subtraction is exact.
\<close>

lemma plan_step64:
  assumes mr: "fl mr = Fin mr" "0 \<le> mr"
    and b: "fl b = Fin b"
    and P0: "fl (of_int L * mr) = Fin P0" "of_int \<lfloor>P0\<rfloor> \<le> b"
    and r: "0 \<le> r" "r \<le> L" "L < 2 ^ 53"
  obtains d where
    "Math_ceil64 (Math_min64 (js_sub64 (Fin b)
         (Math_floor64 (js_mul64 (Fin (of_int r)) (Fin mr)))) (Fin (of_int r))) = Fin (of_int d)"
    and "0 \<le> d" and "d \<le> r"
    and "js_sub64 (Fin (of_int r)) (Fin (of_int d)) = Fin (of_int (r - d))"
proof -
  have rr: "\<bar>r\<bar> < 2 ^ 53" using r by simp
  have vr: "val (Fin (of_int r)) = Fin (of_int r)" using rr by (rule val_int)
  have vm: "val (Fin mr) = Fin mr" using mr(1) by simp
  have vb: "val (Fin b) = Fin b" using b by simp
  have "0 \<le> real_of_int r * mr" using r(1) mr(2) by simp
  moreover have "real_of_int r * mr \<le> real_of_int L * mr"
    using r(2) mr(2) by (intro mult_right_mono) simp_all
  ultimately obtain p where p: "fl (real_of_int r * mr) = Fin p" "0 \<le> p" "p \<le> P0"
    using fl_between [OF fl_zero P0(1)] by blast
  have vp: "val (Fin p) = Fin p" using fl_idem [OF p(1)] by simp
  have m: "js_mul64 (Fin (of_int r)) (Fin mr) = Fin p"
    using js_mul64_Fin [OF vr vm] p(1) by simp
  have f: "Math_floor64 (Fin p) = Fin (of_int \<lfloor>p\<rfloor>)" using vp by (rule Math_floor64_Fin)
  have I: "0 \<le> \<lfloor>p\<rfloor>" "\<lfloor>p\<rfloor> \<le> \<lfloor>P0\<rfloor>" using p(2,3) by (simp_all add: floor_mono)
  have vi: "val (Fin (of_int \<lfloor>p\<rfloor>)) = Fin (of_int \<lfloor>p\<rfloor>)"
    using fl_floor [OF fl_idem [OF p(1)]] by simp
  have "0 \<le> b - of_int \<lfloor>p\<rfloor>"
  proof -
    have "real_of_int \<lfloor>p\<rfloor> \<le> real_of_int \<lfloor>P0\<rfloor>" using I(2) by (simp only: of_int_le_iff)
    then show ?thesis using P0(2) by linarith
  qed
  moreover have "b - of_int \<lfloor>p\<rfloor> \<le> b"
  proof -
    have "real_of_int 0 \<le> real_of_int \<lfloor>p\<rfloor>" using I(1) by (simp only: of_int_le_iff)
    then show ?thesis by simp
  qed
  ultimately obtain a where a: "fl (b - of_int \<lfloor>p\<rfloor>) = Fin a" "0 \<le> a" "a \<le> b"
    using fl_between [OF fl_zero b] by blast
  have va: "val (Fin a) = Fin a" using fl_idem [OF a(1)] by simp
  have s: "js_sub64 (Fin b) (Fin (of_int \<lfloor>p\<rfloor>)) = Fin a"
    using js_sub64_Fin [OF vb vi] a(1) by simp
  have mn: "Math_min64 (Fin a) (Fin (of_int r)) = Fin (min a (of_int r))"
    using va vr by (rule Math_min64_Fin)
  have vmn: "val (Fin (min a (of_int r))) = Fin (min a (of_int r))"
    using va vr by (simp add: min_def)
  define d where "d = \<lceil>min a (real_of_int r)\<rceil>"
  have c: "Math_ceil64 (Fin (min a (of_int r))) = Fin (of_int d)"
    unfolding d_def using vmn by (rule Math_ceil64_Fin)
  have "0 \<le> min a (real_of_int r)" using a(2) r(1) by simp
  then have d0: "0 \<le> d" unfolding d_def by (simp add: ceiling_le_iff less_ceiling_iff)
  have "min a (real_of_int r) \<le> real_of_int r" by simp
  then have dr: "d \<le> r" unfolding d_def by (simp add: ceiling_le_iff)
  have vd: "val (Fin (of_int d)) = Fin (of_int d)"
    using d0 dr rr by (intro val_int) simp
  have "\<bar>r - d\<bar> < 2 ^ 53" using d0 dr rr by simp
  then have "fl (real_of_int (r - d)) = Fin (of_int (r - d))" by (rule fl_int)
  then have sub: "js_sub64 (Fin (of_int r)) (Fin (of_int d)) = Fin (of_int (r - d))"
    using js_sub64_Fin [OF vr vd] by simp
  show ?thesis
    using that [OF _ d0 dr sub] m f s mn c by simp
qed

text \<open>The entries of a schedule from a whole remainder.\<close>

lemma plan_entries64_whole:
  assumes mr: "fl mr = Fin mr" "0 \<le> mr"
    and b: "fl b = Fin b"
    and P0: "fl (of_int L * mr) = Fin P0" "of_int \<lfloor>P0\<rfloor> \<le> b"
    and r: "0 \<le> r" "r \<le> L" "L < 2 ^ 53"
    and j: "j < k"
  shows "\<exists>p d. previous_remainder (Fin (of_int r))
                 (plan_entries64 (Fin mr) (Fin b) pf qf dt i k (Fin (of_int r))) j = Fin (of_int p)
           \<and> downPayment (plan_entries64 (Fin mr) (Fin b) pf qf dt i k (Fin (of_int r)) ! j)
               = Fin (of_int d)
           \<and> remainder (plan_entries64 (Fin mr) (Fin b) pf qf dt i k (Fin (of_int r)) ! j)
               = Fin (of_int (p - d))
           \<and> 0 \<le> d \<and> d \<le> p \<and> p \<le> L"
  using r(1,2) j
proof (induction k arbitrary: i r j)
  case 0
  then show ?case by simp
next
  case (Suc k)
  from plan_step64 [OF mr b P0 Suc.prems(1,2) r(3)]
  obtain d where d:
    "Math_ceil64 (Math_min64 (js_sub64 (Fin b)
         (Math_floor64 (js_mul64 (Fin (of_int r)) (Fin mr)))) (Fin (of_int r))) = Fin (of_int d)"
    "0 \<le> d" "d \<le> r"
    "js_sub64 (Fin (of_int r)) (Fin (of_int d)) = Fin (of_int (r - d))"
    by blast
  let ?rest = "plan_entries64 (Fin mr) (Fin b) pf qf dt (Suc i) k (Fin (of_int (r - d)))"
  obtain y m where ym: "dateAtIndex (int i + 1) dt = (y, m)" by (cases "dateAtIndex (int i + 1) dt")
  define e where "e = \<lparr>downPayment = Fin (of_int d),
      feesPaid = js_add64 (sumArray64 qf) (if i = 0 then sumArray64 pf else Fin 0),
      remainder = Fin (of_int (r - d)),
      interest = Math_floor64 (js_mul64 (Fin (of_int r)) (Fin mr)), year = y, month = m\<rparr>"
  have e: "plan_entries64 (Fin mr) (Fin b) pf qf dt i (Suc k) (Fin (of_int r)) = e # ?rest"
    using d(1,4) ym by (simp add: Let_def e_def)
  have ed: "downPayment e = Fin (of_int d)" and er: "remainder e = Fin (of_int (r - d))"
    by (simp_all add: e_def)
  show ?case
  proof (cases j)
    case 0
    then show ?thesis
      using e ed er d(2,3) Suc.prems(2) by (auto simp: previous_remainder_def)
  next
    case (Suc j')
    have r': "0 \<le> r - d" "r - d \<le> L" using d(2,3) Suc.prems(2) by simp_all
    have j': "j' < k" using Suc Suc.prems(3) by simp
    from Suc.IH [OF r' j', of "Suc i"]
    obtain p d' where pd:
      "previous_remainder (Fin (of_int (r - d))) ?rest j' = Fin (of_int p)"
      "downPayment (?rest ! j') = Fin (of_int d')"
      "remainder (?rest ! j') = Fin (of_int (p - d'))"
      "0 \<le> d'" "d' \<le> p" "p \<le> L"
      by blast
    have "previous_remainder (Fin (of_int r)) (e # ?rest) j
            = previous_remainder (Fin (of_int (r - d))) ?rest j'"
      using Suc er by (cases j') (simp_all add: previous_remainder_def)
    then show ?thesis using pd Suc e by auto
  qed
qed

lemma val_roundDecimals64 [simp]: "val (roundDecimals64 a d) = roundDecimals64 a d"
  by (simp add: roundDecimals64_def Let_def)

lemma val_amortization64 [simp]:
  "val (amortization64 loanAmount rate period) = amortization64 loanAmount rate period"
  by (simp add: amortization64_def Let_def)

text \<open>Every entry subtracts its down payment from the remainder before it.\<close>

lemma plan_entries64_recurrence:
  assumes "j < k"
  shows "remainder (plan_entries64 mr b pf qf dt i k r ! j)
           = js_sub64 (previous_remainder r (plan_entries64 mr b pf qf dt i k r) j)
               (downPayment (plan_entries64 mr b pf qf dt i k r ! j))"
  using assms
proof (induction k arbitrary: i r j)
  case 0
  then show ?case by simp
next
  case (Suc k)
  define d where "d = Math_ceil64 (Math_min64 (js_sub64 b (Math_floor64 (js_mul64 r mr))) r)"
  let ?rest = "plan_entries64 mr b pf qf dt (Suc i) k (js_sub64 r d)"
  obtain y m where ym: "dateAtIndex (int i + 1) dt = (y, m)" by (cases "dateAtIndex (int i + 1) dt")
  define e where "e = \<lparr>downPayment = d,
      feesPaid = js_add64 (sumArray64 qf) (if i = 0 then sumArray64 pf else Fin 0),
      remainder = js_sub64 r d,
      interest = Math_floor64 (js_mul64 r mr), year = y, month = m\<rparr>"
  have e: "plan_entries64 mr b pf qf dt i (Suc k) r = e # ?rest"
    using ym by (simp add: Let_def e_def d_def)
  show ?case
  proof (cases j)
    case 0
    then show ?thesis unfolding e by (simp add: previous_remainder_def e_def)
  next
    case (Suc j')
    then have j': "j' < k" using Suc.prems by simp
    have "previous_remainder r (e # ?rest) j = previous_remainder (js_sub64 r d) ?rest j'"
      using Suc by (cases j') (simp_all add: previous_remainder_def e_def)
    then show ?thesis unfolding e using Suc.IH [OF j', of "Suc i" "js_sub64 r d"] Suc by simp
  qed
qed

lemma plan_recurrence64:
  assumes "paymentPlanFromToday64 loanAmount rate period pf qf today = Inr es" and "i < length es"
  shows "remainder (es ! i) = js_sub64 (previous_remainder loanAmount es i) (downPayment (es ! i))"
proof -
  let ?k = "ToLength (js_mul64 period (Fin 12))"
  have es: "es = plan_entries64 (js_div64 rate (Fin 12)) (amortization64 loanAmount rate period)
                   (fees_or_default pf) (fees_or_default qf) today 0 ?k loanAmount"
    using assms(1) by (simp add: plan_cases64 split: if_splits)
  then have "i < ?k" using assms(2) by (simp add: length_plan_entries64)
  then show ?thesis unfolding es by (rule plan_entries64_recurrence)
qed

lemma plan_whole64:
  assumes plan: "paymentPlanFromToday64 (Fin (of_int L)) rate period pf qf today = Inr es"
    and i: "i < length es"
    and L: "0 \<le> L" "L < 2 ^ 53"
    and mr: "js_div64 rate (Fin 12) = Fin mr" "0 \<le> mr"
    and P0: "js_mul64 (Fin (of_int L)) (Fin mr) = Fin P0"
    and b: "amortization64 (Fin (of_int L)) rate period = Fin b" "of_int \<lfloor>P0\<rfloor> \<le> b"
  shows "\<exists>p d. previous_remainder (Fin (of_int L)) es i = Fin (of_int p)
           \<and> downPayment (es ! i) = Fin (of_int d)
           \<and> remainder (es ! i) = Fin (of_int (p - d))
           \<and> 0 \<le> d \<and> d \<le> p \<and> p \<le> L"
proof -
  let ?k = "ToLength (js_mul64 period (Fin 12))"
  have es: "es = plan_entries64 (Fin mr) (Fin b) (fees_or_default pf) (fees_or_default qf)
                   today 0 ?k (Fin (of_int L))"
    using plan mr(1) b(1) by (simp add: plan_cases64 split: if_splits)
  then have k: "i < ?k" using i by (simp add: length_plan_entries64)
  have "val (Fin mr) = Fin mr" using val_js_div64 [of rate "Fin 12"] unfolding mr(1) .
  then have fm: "fl mr = Fin mr" by simp
  have "val (Fin b) = Fin b" using val_amortization64 [of "Fin (of_int L)" rate period] unfolding b(1) .
  then have fb: "fl b = Fin b" by simp
  have "\<bar>L\<bar> < 2 ^ 53" using L by simp
  then have vl: "val (Fin (of_int L)) = Fin (of_int L)" by (rule val_int)
  have fp: "fl (of_int L * mr) = Fin P0"
    using js_mul64_Fin [OF vl, of "Fin mr" mr] fm P0 by simp
  show ?thesis
    unfolding es by (rule plan_entries64_whole [OF fm mr(2) fb fp b(2) L(1) order_refl L(2) k])
qed

text \<open>One callback on given values.\<close>

lemma plan_entries64_step:
  assumes r: "fl r = Fin r" and mr: "fl mr = Fin mr" and b: "fl b = Fin b"
    and p: "fl (r * mr) = Fin p"
    and a: "fl (b - of_int \<lfloor>p\<rfloor>) = Fin a"
    and r': "fl (r - of_int \<lceil>min a r\<rceil>) = Fin r'"
    and ym: "dateAtIndex (int i + 1) d = (y, m)"
  shows "plan_entries64 (Fin mr) (Fin b) pf qf d i (Suc k) (Fin r)
           = \<lparr>downPayment = Fin (of_int \<lceil>min a r\<rceil>),
               feesPaid = js_add64 (sumArray64 qf) (if i = 0 then sumArray64 pf else Fin 0),
               remainder = Fin r', interest = Fin (of_int \<lfloor>p\<rfloor>), year = y, month = m\<rparr>
             # plan_entries64 (Fin mr) (Fin b) pf qf d (Suc i) k (Fin r')"
proof -
  have vr: "val (Fin r) = Fin r" and vm: "val (Fin mr) = Fin mr" and vb: "val (Fin b) = Fin b"
    using r mr b by simp_all
  have m: "js_mul64 (Fin r) (Fin mr) = Fin p" using js_mul64_Fin [OF vr vm] p by simp
  have vp: "val (Fin p) = Fin p" using fl_idem [OF p] by simp
  have f: "Math_floor64 (Fin p) = Fin (of_int \<lfloor>p\<rfloor>)" using vp by (rule Math_floor64_Fin)
  have vi: "val (Fin (of_int \<lfloor>p\<rfloor>)) = Fin (of_int \<lfloor>p\<rfloor>)"
    using fl_floor [OF fl_idem [OF p]] by simp
  have s: "js_sub64 (Fin b) (Fin (of_int \<lfloor>p\<rfloor>)) = Fin a"
    using js_sub64_Fin [OF vb vi] a by simp
  have va: "val (Fin a) = Fin a" using fl_idem [OF a] by simp
  have mn: "Math_min64 (Fin a) (Fin r) = Fin (min a r)" using va vr by (rule Math_min64_Fin)
  have fmn: "fl (min a r) = Fin (min a r)" using fl_idem [OF a] r by (simp add: min_def)
  then have vmn: "val (Fin (min a r)) = Fin (min a r)" by simp
  have c: "Math_ceil64 (Fin (min a r)) = Fin (of_int \<lceil>min a r\<rceil>)"
    using vmn by (rule Math_ceil64_Fin)
  have vd: "val (Fin (of_int \<lceil>min a r\<rceil>)) = Fin (of_int \<lceil>min a r\<rceil>)"
    using fl_ceiling [OF fmn] by simp
  have sub: "js_sub64 (Fin r) (Fin (of_int \<lceil>min a r\<rceil>)) = Fin r'"
    using js_sub64_Fin [OF vr vd] r' by simp
  show ?thesis by (simp add: Let_def m f s mn c sub ym)
qed

section \<open>The amortization formula on binary64 numbers\<close>

text \<open>The steps of \<open>_amortization\<close> on given values.\<close>

lemma Math_pow64_ten_two: "Math_pow64 (Fin 10) (Fin 2) = Fin 100"
proof -
  have "fl ((10::real) ^ 2) = Fin 100" by simp
  then show ?thesis using Math_pow64_nat [of "Fin 10" 10 "Fin 2" 2] by simp
qed

lemma roundDecimals64_two:
  assumes "val a = Fin am" and "fl (am * 100) = Fin s"
  shows "roundDecimals64 a (Fin 2) = fl (of_int \<lfloor>s + 1 / 2\<rfloor> / 100)"
proof -
  have m: "js_mul64 a (Fin 100) = Fin s"
    using js_mul64_Fin [OF assms(1), of "Fin 100" 100] assms(2) by simp
  have vs: "val (Fin s) = Fin s" using fl_idem [OF assms(2)] by simp
  have r: "Math_round64 (Fin s) = Fin (of_int \<lfloor>s + 1 / 2\<rfloor>)" using vs by (rule Math_round64_Fin)
  have "fl s = Fin s" using assms(2) by (rule fl_idem)
  then have "fl (of_int \<lfloor>s + 1 / 2\<rfloor>) = Fin (of_int \<lfloor>s + 1 / 2\<rfloor>)" by (rule fl_round)
  then have vr: "val (Fin (of_int \<lfloor>s + 1 / 2\<rfloor>)) = Fin (of_int \<lfloor>s + 1 / 2\<rfloor>)" by simp
  have "js_div64 (Fin (of_int \<lfloor>s + 1 / 2\<rfloor>)) (Fin 100) = fl (of_int \<lfloor>s + 1 / 2\<rfloor> / 100)"
    using js_div64_Fin [OF vr, of "Fin 100" 100] by simp
  then show ?thesis
    by (simp add: roundDecimals64_def Let_def Math_pow64_ten_two m r)
qed

lemma amortization64_eval:
  assumes "val rate = Fin r0" and "fl (r0 / 12) = Fin r" and "fl (1 + r) = Fin x"
    and "val period = Fin p" and "fl (p * 12) = Fin (of_nat n)" and "0 < n"
    and "fl (x ^ n) = Fin pw" and "fl (r * pw) = Fin nu" and "fl (pw - 1) = Fin de"
    and "de \<noteq> 0" and "fl (nu / de) = Fin q"
    and "val loanAmount = Fin l" and "fl (l * q) = Fin am" and "fl (am * 100) = Fin s"
    and "fl (of_int \<lfloor>s + 1 / 2\<rfloor> / 100) = Fin c"
  shows "amortization64 loanAmount rate period = Fin c"
proof -
  have rp: "js_div64 rate (Fin 12) = Fin r"
    using js_div64_Fin [OF assms(1), of "Fin 12" 12] assms(2) by simp
  have vr: "val (Fin r) = Fin r" using fl_idem [OF assms(2)] by simp
  have xx: "js_add64 (Fin 1) (Fin r) = Fin x"
    using js_add64_Fin [OF val_1 vr] assms(3) by simp
  have vx: "val (Fin x) = Fin x" using fl_idem [OF assms(3)] by simp
  have nn: "js_mul64 period (Fin 12) = Fin (of_nat n)"
    using js_mul64_Fin [OF assms(4), of "Fin 12" 12] assms(5) by simp
  have vn: "val (Fin (real n)) = Fin (real n)" using fl_idem [OF assms(5)] by simp
  have pw: "Math_pow64 (Fin x) (Fin (of_nat n)) = Fin pw"
    using Math_pow64_nat [OF vx vn assms(6)] assms(7) by simp
  have vpw: "val (Fin pw) = Fin pw" using fl_idem [OF assms(7)] by simp
  have nu: "js_mul64 (Fin r) (Fin pw) = Fin nu"
    using js_mul64_Fin [OF vr vpw] assms(8) by simp
  have vnu: "val (Fin nu) = Fin nu" using fl_idem [OF assms(8)] by simp
  have de: "js_sub64 (Fin pw) (Fin 1) = Fin de"
    using js_sub64_Fin [OF vpw val_1] assms(9) by simp
  have vde: "val (Fin de) = Fin de" using fl_idem [OF assms(9)] by simp
  have q: "js_div64 (Fin nu) (Fin de) = Fin q"
    using js_div64_Fin [OF vnu vde assms(10)] assms(11) by simp
  have vq: "val (Fin q) = Fin q" using fl_idem [OF assms(11)] by simp
  have am: "js_mul64 loanAmount (Fin q) = Fin am"
    using js_mul64_Fin [OF assms(12) vq] assms(13) by simp
  have vam: "val (Fin am) = Fin am" using fl_idem [OF assms(13)] by simp
  show ?thesis
    unfolding amortization64_def Let_def rp xx nn pw nu de q am
    using roundDecimals64_two [OF vam assms(14)] assms(15) by simp
qed







section \<open>The remainder along the schedule\<close>

lemma amortization64_2000:
  "amortization64 (Fin 2000) (Fin (9 / 500)) (Fin (1 / 4)) = Fin (5881683521159823 / 8796093022208)"
proof -
  have r0: "fl (9 / 500) = Fin (5188146770730811 / 288230376151711744)"
    by (rule fl_evalI [where e = "- 6" and m = 5188146770730811]) simp_all
  have vr: "val (Fin (9 / 500)) = Fin (5188146770730811 / 288230376151711744)" using r0 by simp
  have r: "fl ((5188146770730811 / 288230376151711744) / 12) = Fin (6917529027641081 / 4611686018427387904)"
    by (rule fl_evalI [where e = "- 10" and m = 6917529027641081]) simp_all
  have x: "fl (1 + (6917529027641081 / 4611686018427387904)) = Fin (140948594587861 / 140737488355328)"
    by (rule fl_evalI [where e = 0 and m = 4510355026811552]) simp_all
  have p: "fl (1 / 4) = Fin (1 / 4)"
    by (rule fl_evalI [where e = "- 2" and m = 4503599627370496]) simp_all
  have vp: "val (Fin (1 / 4)) = Fin (1 / 4)" using p by simp
  have n0: "fl ((1 / 4) * 12) = Fin 3"
    by (rule fl_evalI [where e = 1 and m = 6755399441055744]) simp_all
  have n: "fl ((1 / 4) * 12) = Fin (of_nat 3)" using n0 by simp
  have pe: "((140948594587861 / 140737488355328) :: real) ^ 3 = (2800156144652389985848612525243836853558381 / 2787593149816327892691964784081045188247552)"
    by (simp add: power_divide)
  have pw0: "fl (2800156144652389985848612525243836853558381 / 2787593149816327892691964784081045188247552) = Fin (4523896240190797 / 4503599627370496)"
    by (rule fl_evalI [where e = 0 and m = 4523896240190797]) simp_all
  have pw: "fl ((140948594587861 / 140737488355328) ^ 3) = Fin (4523896240190797 / 4503599627370496)" unfolding pe by (rule pw0)
  have nu: "fl ((6917529027641081 / 4611686018427387904) * (4523896240190797 / 4503599627370496)) = Fin (6948704624933063 / 4611686018427387904)"
    by (rule fl_evalI [where e = "- 10" and m = 6948704624933063]) simp_all
  have de: "fl ((4523896240190797 / 4503599627370496) - 1) = Fin (20296612820301 / 4503599627370496)"
    by (rule fl_evalI [where e = "- 8" and m = 5195932881997056]) simp_all
  have q: "fl ((6948704624933063 / 4611686018427387904) / (20296612820301 / 4503599627370496)) = Fin (3011411451058647 / 9007199254740992)"
    by (rule fl_evalI [where e = "- 2" and m = 6022822902117294]) simp_all
  have l: "fl 2000 = Fin 2000"
    by (rule fl_evalI [where e = 10 and m = 8796093022208000]) simp_all
  have vl: "val (Fin 2000) = Fin 2000" using l by simp
  have am: "fl (2000 * (3011411451058647 / 9007199254740992)) = Fin (735207873793615 / 1099511627776)"
    by (rule fl_evalI [where e = 9 and m = 5881662990348920]) simp_all
  have s: "fl ((735207873793615 / 1099511627776) * 100) = Fin (2297524605605047 / 34359738368)"
    by (rule fl_evalI [where e = 16 and m = 4595049211210094]) simp_all
  have c0: "fl (66867 / 100) = Fin (5881683521159823 / 8796093022208)"
    by (rule fl_evalI [where e = 9 and m = 5881683521159823]) simp_all
  have c: "fl (of_int \<lfloor>(2297524605605047 / 34359738368) + 1 / 2 :: real\<rfloor> / 100) = Fin (5881683521159823 / 8796093022208)" using c0 by simp
  show ?thesis
    by (rule amortization64_eval [OF vr r x vp n _ pw nu de _ q vl am s c]) simp_all
qed

lemma plan64_2000:
  "paymentPlanFromToday64 (Fin 2000) (Fin (9 / 500)) (Fin (1 / 4)) None None
       \<lparr>getFullYear = 2026, getMonth = 10\<rparr>
     = Inr [\<lparr>downPayment = Fin 667, feesPaid = Fin 0, remainder = Fin 1333, interest = Fin 2,
          year = 2026, month = 11\<rparr>,
        \<lparr>downPayment = Fin 668, feesPaid = Fin 0, remainder = Fin 665, interest = Fin 1,
          year = 2027, month = 0\<rparr>,
        \<lparr>downPayment = Fin 665, feesPaid = Fin 0, remainder = Fin 0, interest = Fin 0,
          year = 2027, month = 1\<rparr>]"
proof -
  let ?d = "\<lparr>getFullYear = 2026, getMonth = 10\<rparr>"
  have am: "amortization64 (Fin 2000) (Fin (9 / 500)) (Fin (1 / 4)) = Fin (5881683521159823 / 8796093022208)"
    by (rule amortization64_2000)
  have bc: "fl (5881683521159823 / 8796093022208) = Fin (5881683521159823 / 8796093022208)"
    using val_amortization64 [of "Fin 2000" "Fin (9 / 500)" "Fin (1 / 4)"] unfolding am by simp
  have r0: "fl (9 / 500) = Fin (5188146770730811 / 288230376151711744)"
    by (rule fl_evalI [where e = "- 6" and m = 5188146770730811]) simp_all
  have r: "fl ((5188146770730811 / 288230376151711744) / 12) = Fin (6917529027641081 / 4611686018427387904)"
    by (rule fl_evalI [where e = "- 10" and m = 6917529027641081]) simp_all
  have mrf: "js_div64 (Fin (9 / 500)) (Fin 12) = Fin (6917529027641081 / 4611686018427387904)"
    using js_div64_Fin [of "Fin (9 / 500)" "5188146770730811 / 288230376151711744" "Fin 12" 12] r0 r by simp
  have mrc: "fl (6917529027641081 / 4611686018427387904) = Fin (6917529027641081 / 4611686018427387904)" using r by (rule fl_idem)
  have p: "fl (1 / 4) = Fin (1 / 4)"
    by (rule fl_evalI [where e = "- 2" and m = 4503599627370496]) simp_all
  have n0: "fl ((1 / 4) * 12) = Fin 3"
    by (rule fl_evalI [where e = 1 and m = 6755399441055744]) simp_all
  have mo: "js_mul64 (Fin (1 / 4)) (Fin 12) = Fin 3"
    using js_mul64_Fin [of "Fin (1 / 4)" "1 / 4" "Fin 12" 12] p n0 by simp
  have rc0: "fl 2000 = Fin 2000" by simp
  have p0: "fl (2000 * (6917529027641081 / 4611686018427387904)) = Fin (6755399441055743 / 2251799813685248)"
    by (rule fl_evalI [where e = 1 and m = 6755399441055743]) simp_all
  have b0: "fl ((5881683521159823 / 8796093022208) - 2) = Fin (5864091335115407 / 8796093022208)"
    by (rule fl_evalI [where e = 9 and m = 5864091335115407]) simp_all
  have a0: "fl ((5881683521159823 / 8796093022208) - of_int \<lfloor>(6755399441055743 / 2251799813685248) :: real\<rfloor>) = Fin (5864091335115407 / 8796093022208)" using b0 by simp
  have s0: "fl (2000 - of_int \<lceil>min (5864091335115407 / 8796093022208) 2000 :: real\<rceil>) = Fin 1333" by simp
  have d0: "dateAtIndex (int (0) + 1) ?d = (2026, 11)" by (simp add: dateAtIndex_def)
  note e0 = plan_entries64_step [OF rc0 mrc bc p0 a0 s0 d0, where pf = "[]" and qf = "[]" and k = "Suc (Suc 0)"]
  have rc1: "fl 1333 = Fin 1333" by simp
  have p1: "fl (1333 * (6917529027641081 / 4611686018427387904)) = Fin (4502473727463653 / 2251799813685248)"
    by (rule fl_evalI [where e = 0 and m = 9004947454927306]) simp_all
  have b1: "fl ((5881683521159823 / 8796093022208) - 1) = Fin (5872887428137615 / 8796093022208)"
    by (rule fl_evalI [where e = 9 and m = 5872887428137615]) simp_all
  have a1: "fl ((5881683521159823 / 8796093022208) - of_int \<lfloor>(4502473727463653 / 2251799813685248) :: real\<rfloor>) = Fin (5872887428137615 / 8796093022208)" using b1 by simp
  have s1: "fl (1333 - of_int \<lceil>min (5872887428137615 / 8796093022208) 1333 :: real\<rceil>) = Fin 665" by simp
  have d1: "dateAtIndex (int (Suc 0) + 1) ?d = (2027, 0)" by (simp add: dateAtIndex_def)
  note e1 = plan_entries64_step [OF rc1 mrc bc p1 a1 s1 d1, where pf = "[]" and qf = "[]" and k = "Suc 0"]
  have rc2: "fl 665 = Fin 665" by simp
  have p2: "fl (665 * (6917529027641081 / 4611686018427387904)) = Fin (4492340628302069 / 4503599627370496)"
    by (rule fl_evalI [where e = "- 1" and m = 8984681256604138]) simp_all
  have b2: "fl ((5881683521159823 / 8796093022208) - 0) = Fin (5881683521159823 / 8796093022208)"
    by (rule fl_evalI [where e = 9 and m = 5881683521159823]) simp_all
  have a2: "fl ((5881683521159823 / 8796093022208) - of_int \<lfloor>(4492340628302069 / 4503599627370496) :: real\<rfloor>) = Fin (5881683521159823 / 8796093022208)" using b2 by simp
  have s2: "fl (665 - of_int \<lceil>min (5881683521159823 / 8796093022208) 665 :: real\<rceil>) = Fin 0" by simp
  have d2: "dateAtIndex (int (Suc (Suc 0)) + 1) ?d = (2027, 1)" by (simp add: dateAtIndex_def)
  note e2 = plan_entries64_step [OF rc2 mrc bc p2 a2 s2 d2, where pf = "[]" and qf = "[]" and k = "0"]
  have es: "plan_entries64 (Fin (6917529027641081 / 4611686018427387904)) (Fin (5881683521159823 / 8796093022208)) [] [] ?d 0 (Suc (Suc (Suc 0))) (Fin 2000)
     = [\<lparr>downPayment = Fin 667, feesPaid = Fin 0, remainder = Fin 1333, interest = Fin 2,
          year = 2026, month = 11\<rparr>,
        \<lparr>downPayment = Fin 668, feesPaid = Fin 0, remainder = Fin 665, interest = Fin 1,
          year = 2027, month = 0\<rparr>,
        \<lparr>downPayment = Fin 665, feesPaid = Fin 0, remainder = Fin 0, interest = Fin 0,
          year = 2027, month = 1\<rparr>]"
    unfolding e0 e1 e2 by (simp add: sumArray64_def js_add64_def)
  have len: "ToLength (Fin 3) = Suc (Suc (Suc 0))" by simp
  show ?thesis
    unfolding plan_cases64 am mrf mo fees_or_default_def option.case len es by simp
qed

lemma monthly_rate64_2000: "js_div64 (Fin (9 / 500)) (Fin 12) = Fin (6917529027641081 / 4611686018427387904)"
proof -
  have r0: "fl (9 / 500) = Fin (5188146770730811 / 288230376151711744)"
    by (rule fl_evalI [where e = "- 6" and m = 5188146770730811]) simp_all
  have r: "fl ((5188146770730811 / 288230376151711744) / 12) = Fin (6917529027641081 / 4611686018427387904)"
    by (rule fl_evalI [where e = "- 10" and m = 6917529027641081]) simp_all
  show ?thesis using js_div64_Fin [of "Fin (9 / 500)" "5188146770730811 / 288230376151711744" "Fin 12" 12] r0 r by simp
qed

lemma first_interest64_2000:
  "js_mul64 (Fin 2000) (Fin (6917529027641081 / 4611686018427387904)) = Fin (6755399441055743 / 2251799813685248)"
proof -
  have m: "fl (6917529027641081 / 4611686018427387904) = Fin (6917529027641081 / 4611686018427387904)"
    using monthly_rate64_2000 val_js_div64 [of "Fin (9 / 500)" "Fin 12"] by simp
  have p: "fl (2000 * (6917529027641081 / 4611686018427387904)) = Fin (6755399441055743 / 2251799813685248)"
    by (rule fl_evalI [where e = 1 and m = 6755399441055743]) simp_all
  show ?thesis using js_mul64_Fin [of "Fin 2000" 2000 "Fin (6917529027641081 / 4611686018427387904)" "6917529027641081 / 4611686018427387904"] m p by simp
qed

lemma amortization64_negative:
  "amortization64 (Fin (- 1000)) (Fin (3 / 25)) (Fin (1 / 4)) = Fin (- (747711887352791 / 2199023255552))"
proof -
  have r0: "fl (3 / 25) = Fin (1080863910568919 / 9007199254740992)"
    by (rule fl_evalI [where e = "- 4" and m = 8646911284551352]) simp_all
  have vr: "val (Fin (3 / 25)) = Fin (1080863910568919 / 9007199254740992)" using r0 by simp
  have r: "fl ((1080863910568919 / 9007199254740992) / 12) = Fin (5764607523034235 / 576460752303423488)"
    by (rule fl_evalI [where e = "- 7" and m = 5764607523034235]) simp_all
  have x: "fl (1 + (5764607523034235 / 576460752303423488)) = Fin (4548635623644201 / 4503599627370496)"
    by (rule fl_evalI [where e = 0 and m = 4548635623644201]) simp_all
  have p: "fl (1 / 4) = Fin (1 / 4)"
    by (rule fl_evalI [where e = "- 2" and m = 4503599627370496]) simp_all
  have vp: "val (Fin (1 / 4)) = Fin (1 / 4)" using p by simp
  have n0: "fl ((1 / 4) * 12) = Fin 3"
    by (rule fl_evalI [where e = 1 and m = 6755399441055744]) simp_all
  have n: "fl ((1 / 4) * 12) = Fin (of_nat 3)" using n0 by simp
  have pe: "((4548635623644201 / 4503599627370496) :: real) ^ 3 = (94111662402729165453321242329234496234339852601 / 91343852333181432387730302044767688728495783936)"
    by (simp add: power_divide)
  have pw0: "fl (94111662402729165453321242329234496234339852601 / 91343852333181432387730302044767688728495783936) = Fin (2320031599839725 / 2251799813685248)"
    by (rule fl_evalI [where e = 0 and m = 4640063199679450]) simp_all
  have pw: "fl ((4548635623644201 / 4503599627370496) ^ 3) = Fin (2320031599839725 / 2251799813685248)" unfolding pe by (rule pw0)
  have nu: "fl ((5764607523034235 / 576460752303423488) * (2320031599839725 / 2251799813685248)) = Fin (92801263993589 / 9007199254740992)"
    by (rule fl_evalI [where e = "- 7" and m = 5939280895589696]) simp_all
  have de: "fl ((2320031599839725 / 2251799813685248) - 1) = Fin (68231786154477 / 2251799813685248)"
    by (rule fl_evalI [where e = "- 6" and m = 8733668627773056]) simp_all
  have q: "fl ((92801263993589 / 9007199254740992) / (68231786154477 / 2251799813685248)) = Fin (6125293818262671 / 18014398509481984)"
    by (rule fl_evalI [where e = "- 2" and m = 6125293818262671]) simp_all
  have l: "fl (- 1000) = Fin (- 1000)"
    by (rule fl_evalI [where e = 9 and m = "- 8796093022208000"]) simp_all
  have vl: "val (Fin (- 1000)) = Fin (- 1000)" using l by simp
  have am: "fl ((- 1000) * (6125293818262671 / 18014398509481984)) = Fin (- (1495433061099285 / 4398046511104))"
    by (rule fl_evalI [where e = 8 and m = "- 5981732244397140"]) simp_all
  have s: "fl ((- (1495433061099285 / 4398046511104)) * 100) = Fin (- (2336614157967633 / 68719476736))"
    by (rule fl_evalI [where e = 15 and m = "- 4673228315935266"]) simp_all
  have c0: "fl ((- 34002) / 100) = Fin (- (747711887352791 / 2199023255552))"
    by (rule fl_evalI [where e = 8 and m = "- 5981695098822328"]) simp_all
  have c: "fl (of_int \<lfloor>(- (2336614157967633 / 68719476736)) + 1 / 2 :: real\<rfloor> / 100) = Fin (- (747711887352791 / 2199023255552))" using c0 by simp
  show ?thesis
    by (rule amortization64_eval [OF vr r x vp n _ pw nu de _ q vl am s c]) simp_all
qed

lemma plan64_negative:
  "paymentPlanFromToday64 (Fin (- 1000)) (Fin (3 / 25)) (Fin (1 / 4)) None None
       \<lparr>getFullYear = 2026, getMonth = 10\<rparr>
     = Inr [\<lparr>downPayment = Fin (- 1000), feesPaid = Fin 0, remainder = Fin 0, interest = Fin (- 10),
          year = 2026, month = 11\<rparr>,
        \<lparr>downPayment = Fin (- 340), feesPaid = Fin 0, remainder = Fin 340, interest = Fin 0,
          year = 2027, month = 0\<rparr>,
        \<lparr>downPayment = Fin (- 343), feesPaid = Fin 0, remainder = Fin 683, interest = Fin 3,
          year = 2027, month = 1\<rparr>]"
proof -
  let ?d = "\<lparr>getFullYear = 2026, getMonth = 10\<rparr>"
  have am: "amortization64 (Fin (- 1000)) (Fin (3 / 25)) (Fin (1 / 4)) = Fin (- (747711887352791 / 2199023255552))"
    by (rule amortization64_negative)
  have bc: "fl (- (747711887352791 / 2199023255552)) = Fin (- (747711887352791 / 2199023255552))"
    using val_amortization64 [of "Fin (- 1000)" "Fin (3 / 25)" "Fin (1 / 4)"] unfolding am by simp
  have r0: "fl (3 / 25) = Fin (1080863910568919 / 9007199254740992)"
    by (rule fl_evalI [where e = "- 4" and m = 8646911284551352]) simp_all
  have r: "fl ((1080863910568919 / 9007199254740992) / 12) = Fin (5764607523034235 / 576460752303423488)"
    by (rule fl_evalI [where e = "- 7" and m = 5764607523034235]) simp_all
  have mrf: "js_div64 (Fin (3 / 25)) (Fin 12) = Fin (5764607523034235 / 576460752303423488)"
    using js_div64_Fin [of "Fin (3 / 25)" "1080863910568919 / 9007199254740992" "Fin 12" 12] r0 r by simp
  have mrc: "fl (5764607523034235 / 576460752303423488) = Fin (5764607523034235 / 576460752303423488)" using r by (rule fl_idem)
  have p: "fl (1 / 4) = Fin (1 / 4)"
    by (rule fl_evalI [where e = "- 2" and m = 4503599627370496]) simp_all
  have n0: "fl ((1 / 4) * 12) = Fin 3"
    by (rule fl_evalI [where e = 1 and m = 6755399441055744]) simp_all
  have mo: "js_mul64 (Fin (1 / 4)) (Fin 12) = Fin 3"
    using js_mul64_Fin [of "Fin (1 / 4)" "1 / 4" "Fin 12" 12] p n0 by simp
  have rc0: "fl (- 1000) = Fin (- 1000)" by simp
  have p0: "fl ((- 1000) * (5764607523034235 / 576460752303423488)) = Fin (- 10)"
    by (rule fl_evalI [where e = 3 and m = "- 5629499534213120"]) simp_all
  have b0: "fl ((- (747711887352791 / 2199023255552)) - (- 10)) = Fin (- (725721654797271 / 2199023255552))"
    by (rule fl_evalI [where e = 8 and m = "- 5805773238378168"]) simp_all
  have a0: "fl ((- (747711887352791 / 2199023255552)) - of_int \<lfloor>(- 10) :: real\<rfloor>) = Fin (- (725721654797271 / 2199023255552))" using b0 by simp
  have s0: "fl ((- 1000) - of_int \<lceil>min (- (725721654797271 / 2199023255552)) (- 1000) :: real\<rceil>) = Fin 0" by simp
  have d0: "dateAtIndex (int (0) + 1) ?d = (2026, 11)" by (simp add: dateAtIndex_def)
  note e0 = plan_entries64_step [OF rc0 mrc bc p0 a0 s0 d0, where pf = "[]" and qf = "[]" and k = "Suc (Suc 0)"]
  have rc1: "fl 0 = Fin 0" by simp
  have p1: "fl (0 * (5764607523034235 / 576460752303423488)) = Fin 0" by simp
  have b1: "fl ((- (747711887352791 / 2199023255552)) - 0) = Fin (- (747711887352791 / 2199023255552))"
    by (rule fl_evalI [where e = 8 and m = "- 5981695098822328"]) simp_all
  have a1: "fl ((- (747711887352791 / 2199023255552)) - of_int \<lfloor>0 :: real\<rfloor>) = Fin (- (747711887352791 / 2199023255552))" using b1 by simp
  have s1: "fl (0 - of_int \<lceil>min (- (747711887352791 / 2199023255552)) 0 :: real\<rceil>) = Fin 340" by simp
  have d1: "dateAtIndex (int (Suc 0) + 1) ?d = (2027, 0)" by (simp add: dateAtIndex_def)
  note e1 = plan_entries64_step [OF rc1 mrc bc p1 a1 s1 d1, where pf = "[]" and qf = "[]" and k = "Suc 0"]
  have rc2: "fl 340 = Fin 340" by simp
  have p2: "fl (340 * (5764607523034235 / 576460752303423488)) = Fin (7656119366529843 / 2251799813685248)"
    by (rule fl_evalI [where e = 1 and m = 7656119366529843]) simp_all
  have b2: "fl ((- (747711887352791 / 2199023255552)) - 3) = Fin (- (754308957119447 / 2199023255552))"
    by (rule fl_evalI [where e = 8 and m = "- 6034471656955576"]) simp_all
  have a2: "fl ((- (747711887352791 / 2199023255552)) - of_int \<lfloor>(7656119366529843 / 2251799813685248) :: real\<rfloor>) = Fin (- (754308957119447 / 2199023255552))" using b2 by simp
  have s2: "fl (340 - of_int \<lceil>min (- (754308957119447 / 2199023255552)) 340 :: real\<rceil>) = Fin 683" by simp
  have d2: "dateAtIndex (int (Suc (Suc 0)) + 1) ?d = (2027, 1)" by (simp add: dateAtIndex_def)
  note e2 = plan_entries64_step [OF rc2 mrc bc p2 a2 s2 d2, where pf = "[]" and qf = "[]" and k = "0"]
  have es: "plan_entries64 (Fin (5764607523034235 / 576460752303423488)) (Fin (- (747711887352791 / 2199023255552))) [] [] ?d 0 (Suc (Suc (Suc 0))) (Fin (- 1000))
     = [\<lparr>downPayment = Fin (- 1000), feesPaid = Fin 0, remainder = Fin 0, interest = Fin (- 10),
          year = 2026, month = 11\<rparr>,
        \<lparr>downPayment = Fin (- 340), feesPaid = Fin 0, remainder = Fin 340, interest = Fin 0,
          year = 2027, month = 0\<rparr>,
        \<lparr>downPayment = Fin (- 343), feesPaid = Fin 0, remainder = Fin 683, interest = Fin 3,
          year = 2027, month = 1\<rparr>]"
    unfolding e0 e1 e2 by (simp add: sumArray64_def js_add64_def)
  have len: "ToLength (Fin 3) = Suc (Suc (Suc 0))" by simp
  show ?thesis
    unfolding plan_cases64 am mrf mo fees_or_default_def option.case len es by simp
qed




section \<open>The payments of the tests\<close>

text \<open>A power whose bounds round to the same binary64 number.\<close>

lemma fl_power_between:
  assumes "0 \<le> x" and "fl (pow_lo x k) = Fin c" and "fl (pow_hi x k) = Fin c"
  shows "fl (x ^ numeral k) = Fin c"
proof -
  have "pow_lo x k \<le> x ^ numeral k" "x ^ numeral k \<le> pow_hi x k"
    using pow_lo_bounds [OF assms(1)] pow_hi_bounds [OF assms(1)] by blast+
  from fl_between [OF assms(2,3) this] obtain y where "fl (x ^ numeral k) = Fin y" "c \<le> y" "y \<le> c"
    by blast
  then show ?thesis by simp
qed

lemma amortization64_20000:
  "amortization64 (Fin 20000) (Fin (3 / 40)) (Fin 5) = Fin (1762561119790039 / 4398046511104)"
proof -
  have r0: "fl (3 / 40) = Fin (5404319552844595 / 72057594037927936)"
    by (rule fl_evalI [where e = "- 4" and m = 5404319552844595]) simp_all
  have vr: "val (Fin (3 / 40)) = Fin (5404319552844595 / 72057594037927936)" using r0 by simp
  have r: "fl ((5404319552844595 / 72057594037927936) / 12) = Fin (7205759403792793 / 1152921504606846976)"
    by (rule fl_evalI [where e = "- 8" and m = 7205759403792793]) simp_all
  have x: "fl (1 + (7205759403792793 / 1152921504606846976)) = Fin (2265873562520781 / 2251799813685248)"
    by (rule fl_evalI [where e = 0 and m = 4531747125041562]) simp_all
  have p: "fl 5 = Fin 5"
    by (rule fl_evalI [where e = 2 and m = 5629499534213120]) simp_all
  have vp: "val (Fin 5) = Fin 5" using p by simp
  have n0: "fl (5 * 12) = Fin 60"
    by (rule fl_evalI [where e = 5 and m = 8444249301319680]) simp_all
  have n: "fl (5 * 12) = Fin (of_nat 60)" using n0 by simp
  have lo: "pow_lo (2265873562520781 / 2251799813685248) (Num.Bit0 (Num.Bit0 (Num.Bit1 (Num.Bit1 (Num.Bit1 Num.One))))) = (145329440827650233139 / 100000000000000000000)"
    by (simp add: bound_eval)
  have hi: "pow_hi (2265873562520781 / 2251799813685248) (Num.Bit0 (Num.Bit0 (Num.Bit1 (Num.Bit1 (Num.Bit1 Num.One))))) = (145329440827650233231 / 100000000000000000000)"
    by (simp add: bound_eval)
  have flo: "fl (145329440827650233139 / 100000000000000000000) = Fin (6545056155573681 / 4503599627370496)"
    by (rule fl_evalI [where e = 0 and m = 6545056155573681]) simp_all
  have fhi: "fl (145329440827650233231 / 100000000000000000000) = Fin (6545056155573681 / 4503599627370496)"
    by (rule fl_evalI [where e = 0 and m = 6545056155573681]) simp_all
  have pw: "fl ((2265873562520781 / 2251799813685248) ^ 60) = Fin (6545056155573681 / 4503599627370496)"
    using fl_power_between [of "2265873562520781 / 2251799813685248" "Num.Bit0 (Num.Bit0 (Num.Bit1 (Num.Bit1 (Num.Bit1 Num.One))))" "6545056155573681 / 4503599627370496"] flo fhi unfolding lo hi by simp
  have nu: "fl ((7205759403792793 / 1152921504606846976) * (6545056155573681 / 4503599627370496)) = Fin (81813201944671 / 9007199254740992)"
    by (rule fl_evalI [where e = "- 7" and m = 5236044924458944]) simp_all
  have de: "fl ((6545056155573681 / 4503599627370496) - 1) = Fin (2041456528203185 / 4503599627370496)"
    by (rule fl_evalI [where e = "- 2" and m = 8165826112812740]) simp_all
  have q: "fl ((81813201944671 / 9007199254740992) / (2041456528203185 / 4503599627370496)) = Fin (2887772730512617 / 144115188075855872)"
    by (rule fl_evalI [where e = "- 6" and m = 5775545461025234]) simp_all
  have l: "fl 20000 = Fin 20000"
    by (rule fl_evalI [where e = 14 and m = 5497558138880000]) simp_all
  have vl: "val (Fin 20000) = Fin 20000" using l by simp
  have am: "fl (20000 * (2887772730512617 / 144115188075855872)) = Fin (7050226392853069 / 17592186044416)"
    by (rule fl_evalI [where e = 8 and m = 7050226392853069]) simp_all
  have s: "fl ((7050226392853069 / 17592186044416) * 100) = Fin (1376997342354115 / 34359738368)"
    by (rule fl_evalI [where e = 15 and m = 5507989369416460]) simp_all
  have c0: "fl (40076 / 100) = Fin (1762561119790039 / 4398046511104)"
    by (rule fl_evalI [where e = 8 and m = 7050244479160156]) simp_all
  have c: "fl (of_int \<lfloor>(1376997342354115 / 34359738368) + 1 / 2 :: real\<rfloor> / 100) = Fin (1762561119790039 / 4398046511104)" using c0 by simp
  show ?thesis
    by (rule amortization64_eval [OF vr r x vp n _ pw nu de _ q vl am s c]) simp_all
qed

lemma amortization64_25000:
  "amortization64 (Fin 25000) (Fin (49 / 1000)) (Fin 5) = Fin (4139793219971973 / 8796093022208)"
proof -
  have r0: "fl (49 / 1000) = Fin (3530822107858469 / 72057594037927936)"
    by (rule fl_evalI [where e = "- 5" and m = 7061644215716938]) simp_all
  have vr: "val (Fin (49 / 1000)) = Fin (3530822107858469 / 72057594037927936)" using r0 by simp
  have r: "fl ((3530822107858469 / 72057594037927936) / 12) = Fin (4707762810477959 / 1152921504606846976)"
    by (rule fl_evalI [where e = "- 8" and m = 4707762810477959]) simp_all
  have x: "fl (1 + (4707762810477959 / 1152921504606846976)) = Fin (2260994662924463 / 2251799813685248)"
    by (rule fl_evalI [where e = 0 and m = 4521989325848926]) simp_all
  have p: "fl 5 = Fin 5"
    by (rule fl_evalI [where e = 2 and m = 5629499534213120]) simp_all
  have vp: "val (Fin 5) = Fin 5" using p by simp
  have n0: "fl (5 * 12) = Fin 60"
    by (rule fl_evalI [where e = 5 and m = 8444249301319680]) simp_all
  have n: "fl (5 * 12) = Fin (of_nat 60)" using n0 by simp
  have lo: "pow_lo (2260994662924463 / 2251799813685248) (Num.Bit0 (Num.Bit0 (Num.Bit1 (Num.Bit1 (Num.Bit1 Num.One))))) = (12769841297187767831 / 10000000000000000000)"
    by (simp add: bound_eval)
  have hi: "pow_hi (2260994662924463 / 2251799813685248) (Num.Bit0 (Num.Bit0 (Num.Bit1 (Num.Bit1 (Num.Bit1 Num.One))))) = (63849206485938839193 / 50000000000000000000)"
    by (simp add: bound_eval)
  have flo: "fl (12769841297187767831 / 10000000000000000000) = Fin (179719539086235 / 140737488355328)"
    by (rule fl_evalI [where e = 0 and m = 5751025250759520]) simp_all
  have fhi: "fl (63849206485938839193 / 50000000000000000000) = Fin (179719539086235 / 140737488355328)"
    by (rule fl_evalI [where e = 0 and m = 5751025250759520]) simp_all
  have pw: "fl ((2260994662924463 / 2251799813685248) ^ 60) = Fin (179719539086235 / 140737488355328)"
    using fl_power_between [of "2260994662924463 / 2251799813685248" "Num.Bit0 (Num.Bit0 (Num.Bit1 (Num.Bit1 (Num.Bit1 Num.One))))" "179719539086235 / 140737488355328"] flo fhi unfolding lo hi by simp
  have nu: "fl ((4707762810477959 / 1152921504606846976) * (179719539086235 / 140737488355328)) = Fin (6011738395460619 / 1152921504606846976)"
    by (rule fl_evalI [where e = "- 8" and m = 6011738395460619]) simp_all
  have de: "fl ((179719539086235 / 140737488355328) - 1) = Fin (38982050730907 / 140737488355328)"
    by (rule fl_evalI [where e = "- 2" and m = 4989702493556096]) simp_all
  have q: "fl ((6011738395460619 / 1152921504606846976) / (38982050730907 / 140737488355328)) = Fin (5426067552646757 / 288230376151711744)"
    by (rule fl_evalI [where e = "- 6" and m = 5426067552646757]) simp_all
  have l: "fl 25000 = Fin 25000"
    by (rule fl_evalI [where e = 14 and m = 6871947673600000]) simp_all
  have vl: "val (Fin 25000) = Fin 25000" using l by simp
  have am: "fl (25000 * (5426067552646757 / 288230376151711744)) = Fin (517470126404453 / 1099511627776)"
    by (rule fl_evalI [where e = 8 and m = 8279522022471248]) simp_all
  have s: "fl ((517470126404453 / 1099511627776) * 100) = Fin (3234188290027831 / 68719476736)"
    by (rule fl_tieI [where e = 15 and m = 6468376580055662]) simp_all
  have c0: "fl (47064 / 100) = Fin (4139793219971973 / 8796093022208)"
    by (rule fl_evalI [where e = 8 and m = 8279586439943946]) simp_all
  have c: "fl (of_int \<lfloor>(3234188290027831 / 68719476736) + 1 / 2 :: real\<rfloor> / 100) = Fin (4139793219971973 / 8796093022208)" using c0 by simp
  show ?thesis
    by (rule amortization64_eval [OF vr r x vp n _ pw nu de _ q vl am s c]) simp_all
qed

lemma amortization64_2100000:
  "amortization64 (Fin 2100000) (Fin (197 / 10000)) (Fin 25) = Fin (2438249497965363 / 274877906944)"
proof -
  have r0: "fl (197 / 10000) = Fin (5678138410188721 / 288230376151711744)"
    by (rule fl_evalI [where e = "- 6" and m = 5678138410188721]) simp_all
  have vr: "val (Fin (197 / 10000)) = Fin (5678138410188721 / 288230376151711744)" using r0 by simp
  have r: "fl ((5678138410188721 / 288230376151711744) / 12) = Fin (7570851213584961 / 4611686018427387904)"
    by (rule fl_evalI [where e = "- 10" and m = 7570851213584961]) simp_all
  have x: "fl (1 + (7570851213584961 / 4611686018427387904)) = Fin (4510993036758763 / 4503599627370496)"
    by (rule fl_evalI [where e = 0 and m = 4510993036758763]) simp_all
  have p: "fl 25 = Fin 25"
    by (rule fl_evalI [where e = 4 and m = 7036874417766400]) simp_all
  have vp: "val (Fin 25) = Fin 25" using p by simp
  have n0: "fl (25 * 12) = Fin 300"
    by (rule fl_evalI [where e = 8 and m = 5277655813324800]) simp_all
  have n: "fl (25 * 12) = Fin (of_nat 300)" using n0 by simp
  have lo: "pow_lo (4510993036758763 / 4503599627370496) (Num.Bit0 (Num.Bit0 (Num.Bit1 (Num.Bit1 (Num.Bit0 (Num.Bit1 (Num.Bit0 (Num.Bit0 Num.One)))))))) = (40893535991796107939 / 25000000000000000000)"
    by (simp add: bound_eval)
  have hi: "pow_hi (4510993036758763 / 4503599627370496) (Num.Bit0 (Num.Bit0 (Num.Bit1 (Num.Bit1 (Num.Bit0 (Num.Bit1 (Num.Bit0 (Num.Bit0 Num.One)))))))) = (40893535991796108057 / 25000000000000000000)"
    by (simp add: bound_eval)
  have flo: "fl (40893535991796107939 / 25000000000000000000) = Fin (7366724538180597 / 4503599627370496)"
    by (rule fl_evalI [where e = 0 and m = 7366724538180597]) simp_all
  have fhi: "fl (40893535991796108057 / 25000000000000000000) = Fin (7366724538180597 / 4503599627370496)"
    by (rule fl_evalI [where e = 0 and m = 7366724538180597]) simp_all
  have pw: "fl ((4510993036758763 / 4503599627370496) ^ 300) = Fin (7366724538180597 / 4503599627370496)"
    using fl_power_between [of "4510993036758763 / 4503599627370496" "Num.Bit0 (Num.Bit0 (Num.Bit1 (Num.Bit1 (Num.Bit0 (Num.Bit1 (Num.Bit0 (Num.Bit0 Num.One)))))))" "7366724538180597 / 4503599627370496"] flo fhi unfolding lo hi by simp
  have nu: "fl ((7570851213584961 / 4611686018427387904) * (7366724538180597 / 4503599627370496)) = Fin (6191977531825397 / 2305843009213693952)"
    by (rule fl_evalI [where e = "- 9" and m = 6191977531825397]) simp_all
  have de: "fl ((7366724538180597 / 4503599627370496) - 1) = Fin (2863124910810101 / 4503599627370496)"
    by (rule fl_evalI [where e = "- 1" and m = 5726249821620202]) simp_all
  have q: "fl ((6191977531825397 / 2305843009213693952) / (2863124910810101 / 4503599627370496)) = Fin (1217471668793047 / 288230376151711744)"
    by (rule fl_evalI [where e = "- 8" and m = 4869886675172188]) simp_all
  have l: "fl 2100000 = Fin 2100000"
    by (rule fl_evalI [where e = 21 and m = 4509715660800000]) simp_all
  have vl: "val (Fin 2100000) = Fin 2100000" using l by simp
  have am: "fl (2100000 * (1217471668793047 / 288230376151711744)) = Fin (4876500138216779 / 549755813888)"
    by (rule fl_evalI [where e = 13 and m = 4876500138216779]) simp_all
  have s: "fl ((4876500138216779 / 549755813888) * 100) = Fin (7619531465963717 / 8589934592)"
    by (rule fl_evalI [where e = 19 and m = 7619531465963717]) simp_all
  have c0: "fl (887030 / 100) = Fin (2438249497965363 / 274877906944)"
    by (rule fl_evalI [where e = 13 and m = 4876498995930726]) simp_all
  have c: "fl (of_int \<lfloor>(7619531465963717 / 8589934592) + 1 / 2 :: real\<rfloor> / 100) = Fin (2438249497965363 / 274877906944)" using c0 by simp
  show ?thesis
    by (rule amortization64_eval [OF vr r x vp n _ pw nu de _ q vl am s c]) simp_all
qed

text \<open>A rate so small that \<open>1 + rate / 12\<close> is 1: the denominator is 0.\<close>

lemma amortization64_tiny_rate:
  "amortization64 (Fin 20000) (Fin (12 / 10 ^ 16)) (Fin 5) = PInf"
proof -
  have r0: "fl (12 / 10 ^ 16) = Fin (6084722881095501 / 5070602400912917605986812821504)"
    by (rule fl_evalI [where e = "- 50" and m = 6084722881095501]) simp_all
  have r: "fl ((6084722881095501 / 5070602400912917605986812821504) / 12) = Fin (2028240960365167 / 20282409603651670423947251286016)"
    by (rule fl_evalI [where e = "- 54" and m = 8112963841460668]) simp_all
  have x: "fl (1 + (2028240960365167 / 20282409603651670423947251286016)) = Fin 1"
    by (rule fl_evalI [where e = 0 and m = 4503599627370496]) simp_all
  have rp: "js_div64 (Fin (12 / 10 ^ 16)) (Fin 12) = Fin (2028240960365167 / 20282409603651670423947251286016)"
    using js_div64_Fin [of "Fin (12 / 10 ^ 16)" "6084722881095501 / 5070602400912917605986812821504" "Fin 12" 12] r0 r by simp
  have vr: "val (Fin (2028240960365167 / 20282409603651670423947251286016)) = Fin (2028240960365167 / 20282409603651670423947251286016)" using fl_idem [OF r] by simp
  have xx: "js_add64 (Fin 1) (Fin (2028240960365167 / 20282409603651670423947251286016)) = Fin 1"
    using js_add64_Fin [OF val_1 vr] x by simp
  have n: "js_mul64 (Fin 5) (Fin 12) = Fin 60" by (simp add: js_mul64_def)
  have "fl ((1::real) ^ 60) = Fin 1" by simp
  then have pw: "Math_pow64 (Fin 1) (Fin 60) = Fin 1"
    using Math_pow64_nat [of "Fin 1" 1 "Fin 60" 60] by simp
  have nu: "js_mul64 (Fin (2028240960365167 / 20282409603651670423947251286016)) (Fin 1) = Fin (2028240960365167 / 20282409603651670423947251286016)"
    using js_mul64_Fin [OF vr val_1] r by (simp add: fl_idem)
  have de: "js_sub64 (Fin 1) (Fin 1) = Fin 0" by (simp add: js_sub64_def js_sub_def)
  have q: "js_div64 (Fin (2028240960365167 / 20282409603651670423947251286016)) (Fin 0) = PInf"
    using vr by (simp add: js_div64_def inf_of_sign_def)
  have am: "js_mul64 (Fin 20000) PInf = PInf" by (simp add: js_mul64_def inf_of_sign_def)
  have rd: "roundDecimals64 PInf (Fin 2) = PInf"
    by (simp add: roundDecimals64_def Let_def Math_pow64_ten_two js_mul64_def Math_round64_def
          js_div64_def inf_of_sign_def)
  show ?thesis
    unfolding amortization64_def Let_def rp xx n pw nu de q am rd ..
qed

lemma spec_amortization_tiny_rate:
  "isFinite (spec_amortization (Fin 20000) (Fin (12 / 10 ^ 16)) (Fin 5))"
proof -
  have "(1::real) < (1 + 12 / 10 ^ 16 / 12) ^ numeral (Num.Bit0 (Num.Bit0 (Num.Bit1 (Num.Bit1 (Num.Bit1 Num.One)))))"
    by (rule one_less_power) simp_all
  then have "(1 + 12 / 10 ^ 16 / 12 :: real) ^ numeral (Num.Bit0 (Num.Bit0 (Num.Bit1 (Num.Bit1 (Num.Bit1 Num.One))))) \<noteq> 1" by linarith
  from amortization_fin [of 5 "Num.Bit0 (Num.Bit0 (Num.Bit1 (Num.Bit1 (Num.Bit1 Num.One))))", OF _ this, of 20000]
  show ?thesis unfolding amortization_eq_spec by simp
qed

text \<open>A loan of one month: the quotient of the numerator and the denominator is rounded.\<close>

lemma amortization64_one_month:
  "amortization64 (Fin (201 / 2)) (Fin (3 / 25)) (Fin (1 / 12)) = Fin (203 / 2)"
proof -
  have r0: "fl (3 / 25) = Fin (1080863910568919 / 9007199254740992)"
    by (rule fl_evalI [where e = "- 4" and m = 8646911284551352]) simp_all
  have vr: "val (Fin (3 / 25)) = Fin (1080863910568919 / 9007199254740992)" using r0 by simp
  have r: "fl ((1080863910568919 / 9007199254740992) / 12) = Fin (5764607523034235 / 576460752303423488)"
    by (rule fl_evalI [where e = "- 7" and m = 5764607523034235]) simp_all
  have x: "fl (1 + (5764607523034235 / 576460752303423488)) = Fin (4548635623644201 / 4503599627370496)"
    by (rule fl_evalI [where e = 0 and m = 4548635623644201]) simp_all
  have p: "fl (1 / 12) = Fin (6004799503160661 / 72057594037927936)"
    by (rule fl_evalI [where e = "- 4" and m = 6004799503160661]) simp_all
  have vp: "val (Fin (1 / 12)) = Fin (6004799503160661 / 72057594037927936)" using p by simp
  have n0: "fl ((6004799503160661 / 72057594037927936) * 12) = Fin 1"
    by (rule fl_tieI [where e = "- 1" and m = 9007199254740991]) simp_all
  have n: "fl ((6004799503160661 / 72057594037927936) * 12) = Fin (of_nat 1)" using n0 by simp
  have pe: "((4548635623644201 / 4503599627370496) :: real) ^ 1 = (4548635623644201 / 4503599627370496)"
    by (simp add: power_divide)
  have pw0: "fl (4548635623644201 / 4503599627370496) = Fin (4548635623644201 / 4503599627370496)"
    by (rule fl_evalI [where e = 0 and m = 4548635623644201]) simp_all
  have pw: "fl ((4548635623644201 / 4503599627370496) ^ 1) = Fin (4548635623644201 / 4503599627370496)" unfolding pe by (rule pw0)
  have nu: "fl ((5764607523034235 / 576460752303423488) * (4548635623644201 / 4503599627370496)) = Fin (5822253598264577 / 576460752303423488)"
    by (rule fl_evalI [where e = "- 7" and m = 5822253598264577]) simp_all
  have de: "fl ((4548635623644201 / 4503599627370496) - 1) = Fin (45035996273705 / 4503599627370496)"
    by (rule fl_evalI [where e = "- 7" and m = 5764607523034240]) simp_all
  have q: "fl ((5822253598264577 / 576460752303423488) / (45035996273705 / 4503599627370496)) = Fin (4548635623644197 / 4503599627370496)"
    by (rule fl_evalI [where e = 0 and m = 4548635623644197]) simp_all
  have l: "fl (201 / 2) = Fin (201 / 2)"
    by (rule fl_evalI [where e = 6 and m = 7072058789855232]) simp_all
  have vl: "val (Fin (201 / 2)) = Fin (201 / 2)" using l by simp
  have am: "fl ((201 / 2) * (4548635623644197 / 4503599627370496)) = Fin (3571389688876889 / 35184372088832)"
    by (rule fl_evalI [where e = 6 and m = 7142779377753778]) simp_all
  have s: "fl ((3571389688876889 / 35184372088832) * 100) = Fin (5580296388870139 / 549755813888)"
    by (rule fl_evalI [where e = 13 and m = 5580296388870139]) simp_all
  have c0: "fl (10150 / 100) = Fin (203 / 2)"
    by (rule fl_evalI [where e = 6 and m = 7142427534032896]) simp_all
  have c: "fl (of_int \<lfloor>(5580296388870139 / 549755813888) + 1 / 2 :: real\<rfloor> / 100) = Fin (203 / 2)" using c0 by simp
  show ?thesis
    by (rule amortization64_eval [OF vr r x vp n _ pw nu de _ q vl am s c]) simp_all
qed

lemma spec_amortization_one_month:
  "spec_amortization (Fin (201 / 2)) (Fin (12 / 100)) (Fin (1 / 12)) = Fin (10151 / 100)"
  by (simp add: spec_amortization_def Let_def is_int_def js_sub_def)

lemma roundDecimals64_half_up: "roundDecimals64 (Fin (1 / 8)) (Fin 2) = Fin (1170935903116329 / 9007199254740992)"
proof -
  have a: "fl (1 / 8) = Fin (1 / 8)"
    by (rule fl_evalI [where e = "- 3" and m = 4503599627370496]) simp_all
  have va: "val (Fin (1 / 8)) = Fin (1 / 8)" using a by simp
  have s: "fl ((1 / 8) * 100) = Fin (25 / 2)"
    by (rule fl_evalI [where e = 3 and m = 7036874417766400]) simp_all
  have c0: "fl (13 / 100) = Fin (1170935903116329 / 9007199254740992)"
    by (rule fl_evalI [where e = "- 3" and m = 4683743612465316]) simp_all
  have c: "fl (of_int \<lfloor>(25 / 2) + 1 / 2 :: real\<rfloor> / 100) = Fin (1170935903116329 / 9007199254740992)" using c0 by simp
  show ?thesis using roundDecimals64_two [OF va s] c by simp
qed

lemma roundDecimals64_half_up_negative: "roundDecimals64 (Fin (- (1 / 8))) (Fin 2) = Fin (- (1080863910568919 / 9007199254740992))"
proof -
  have a: "fl (- (1 / 8)) = Fin (- (1 / 8))"
    by (rule fl_evalI [where e = "- 3" and m = "- 4503599627370496"]) simp_all
  have va: "val (Fin (- (1 / 8))) = Fin (- (1 / 8))" using a by simp
  have s: "fl ((- (1 / 8)) * 100) = Fin (- (25 / 2))"
    by (rule fl_evalI [where e = 3 and m = "- 7036874417766400"]) simp_all
  have c0: "fl ((- 12) / 100) = Fin (- (1080863910568919 / 9007199254740992))"
    by (rule fl_evalI [where e = "- 4" and m = "- 8646911284551352"]) simp_all
  have c: "fl (of_int \<lfloor>(- (25 / 2)) + 1 / 2 :: real\<rfloor> / 100) = Fin (- (1080863910568919 / 9007199254740992))" using c0 by simp
  show ?thesis using roundDecimals64_two [OF va s] c by simp
qed

lemma roundDecimals64_decimal_half: "roundDecimals64 (Fin (201 / 200)) (Fin 2) = Fin 1"
proof -
  have a: "fl (201 / 200) = Fin (1131529406376837 / 1125899906842624)"
    by (rule fl_evalI [where e = 0 and m = 4526117625507348]) simp_all
  have va: "val (Fin (201 / 200)) = Fin (1131529406376837 / 1125899906842624)" using a by simp
  have s: "fl ((1131529406376837 / 1125899906842624) * 100) = Fin (7072058789855231 / 70368744177664)"
    by (rule fl_evalI [where e = 6 and m = 7072058789855231]) simp_all
  have c0: "fl (100 / 100) = Fin 1"
    by (rule fl_evalI [where e = 0 and m = 4503599627370496]) simp_all
  have c: "fl (of_int \<lfloor>(7072058789855231 / 70368744177664) + 1 / 2 :: real\<rfloor> / 100) = Fin 1" using c0 by simp
  show ?thesis using roundDecimals64_two [OF va s] c by simp
qed

text \<open>The result of \<open>roundDecimals\<close> with two decimals is a whole number of hundredths.\<close>

lemma roundDecimals64_hundredths:
  "roundDecimals64 a (Fin 2) = NaN \<or> (\<exists>k::int. roundDecimals64 a (Fin 2) = fl (of_int k / 100))"
proof -
  have big: "fl (real_of_int (100 * 2 ^ 1024) / 100) = PInf" by (rule fl_PInf) simp
  have small: "fl (real_of_int (- (100 * 2 ^ 1024)) / 100) = NInf" by (rule fl_NInf) simp
  have P: "roundDecimals64 a (Fin 2) = PInf" if "js_mul64 a (Fin 100) = PInf"
    using that by (simp add: roundDecimals64_def Let_def Math_pow64_ten_two Math_round64_def js_div64_def)
  have N: "roundDecimals64 a (Fin 2) = NInf" if "js_mul64 a (Fin 100) = NInf"
    using that by (simp add: roundDecimals64_def Let_def Math_pow64_ten_two Math_round64_def js_div64_def)
  have X: "roundDecimals64 a (Fin 2) = NaN" if "js_mul64 a (Fin 100) = NaN"
    using that by (simp add: roundDecimals64_def Let_def Math_pow64_ten_two Math_round64_def js_div64_def)
  show ?thesis
  proof (cases "js_mul64 a (Fin 100)")
    case (Fin s)
    then have "val a \<noteq> NaN" "val a \<noteq> PInf" "val a \<noteq> NInf"
      by (auto simp: js_mul64_def inf_of_sign_def)
    then obtain am where am: "val a = Fin am" by (cases "val a") auto
    then have "fl (am * 100) = Fin s" using Fin js_mul64_Fin [OF am, of "Fin 100" 100] by simp
    from roundDecimals64_two [OF am this] show ?thesis by blast
  next
    case PInf
    then show ?thesis using P big by metis
  next
    case NInf
    then show ?thesis using N small by metis
  next
    case NaN
    then show ?thesis using X by simp
  qed
qed



end
